theory Spec2Isabelle
  imports Main "HOL-Library.Word" "HOL-Library.Signed_Division"
begin

section \<open>The loading cache of Scylla's utils\<close>

text \<open>
  The repository holds two versions of \<^verbatim>\<open>utils::loading_cache\<close>:
  \<^item> variant A, \<^verbatim>\<open>src/utils/loading_cache.hh\<close>: the entries live in the shared-values
    registry \<^verbatim>\<open>_loading_values\<close>, an \<^verbatim>\<open>lru_entry\<close> anchors a registry slot in the LRU
    list, the cache always reloads, \<^verbatim>\<open>get\<close> rejects an entry that is too big;
  \<^item> variant B, \<^verbatim>\<open>src/unnamed/part_001\<close>: the entries are \<^verbatim>\<open>timestamped_val\<close> objects that
    sit in an intrusive hash set \<^verbatim>\<open>_set\<close> and in the LRU list at once, reloading is the
    template parameter \<^verbatim>\<open>ReloadEnabled\<close>, and \<^verbatim>\<open>get_ptr\<close>, \<^verbatim>\<open>erase\<close>, \<^verbatim>\<open>remove_if\<close> are
    public.
  Every definition carries the source's name and the suffix of its variant.

  Time points and durations are integers in one unit (milliseconds), the values of
  \<^verbatim>\<open>std::chrono\<close>'s signed 64-bit representation. Comparisons are exact, and so is the
  difference of two readings of the clock; a sum of a time point and a duration is
  taken in the representation (\<open>chrono_plus\<close> below), where it can leave the range.
  \<^verbatim>\<open>size_t\<close> is a 64-bit word, so that
  \<^verbatim>\<open>+=\<close> and \<^verbatim>\<open>-=\<close> on the cache size wrap as they do in the code. A reading of the clock
  \<^verbatim>\<open>loading_cache_clock_type::now()\<close> is an argument of the function that reads it.
  An asynchronous operation is split where it suspends: the part that runs before the
  loader's future resolves, and the continuation (the lambda given to \<^verbatim>\<open>then\<close> or
  \<^verbatim>\<open>then_wrapped\<close>) that runs on whatever the state is when it resolves.
\<close>

text \<open>
  \<^verbatim>\<open>operator+\<close> of \<^verbatim>\<open>std::chrono\<close> on a time point and a duration, or on two durations:
  the sum of the two counts in the signed 64-bit representation, written out as the
  two's complement sum that the compiled addition gives when the exact sum does not fit.
\<close>

definition chrono_plus :: "int \<Rightarrow> int \<Rightarrow> int" where
  "chrono_plus a b = (a + b + 2 ^ 63) mod 2 ^ 64 - 2 ^ 63"

datatype exn =
    configuration_exception
  | entry_is_too_big
  | entry_not_found
  | assertion_failed
  | dangling_reference
  | loader_exception string

subsection \<open>Variant B: the data\<close>

text \<open>
  A \<^verbatim>\<open>timestamped_val\<close> of variant B. \<open>key_B\<close> is \<^verbatim>\<open>to_key(_value_ptr)\<close> and
  \<open>val_B\<close> is \<^verbatim>\<open>*_value_ptr\<close>. The references \<^verbatim>\<open>_lru_list\<close> and \<^verbatim>\<open>_cache_size\<close> point
  into the cache that owns the object, so the functions below take the cache.
\<close>

record ('k, 'v) timestamped_val_B =
  key_B :: 'k
  val_B :: 'v
  loaded_B :: int
  last_read_B :: int
  size_B :: "64 word"

text \<open>
  The cache of variant B. The \<^verbatim>\<open>timestamped_val\<close> objects are allocated one by one
  (\<^verbatim>\<open>Alloc().allocate(1)\<close>) and the two intrusive containers hold the same objects, so
  the objects live in a store \<open>heap_B\<close> from addresses to objects, and \<open>set_B\<close> and
  \<open>lru_list_B\<close> are lists of addresses (the MRU item at the front of the LRU list).
  \<open>next_B\<close> is the next address the allocator hands out; an address is never handed out
  twice, so a reference to a destroyed object is recognised as dangling.
  The order of \<open>set_B\<close> stands for the iteration order of the hash set, about which
  nothing is used. \<open>refresh_B\<close> and \<open>timer_period_B\<close> are \<open>None\<close> where the
  constructor leaves the member uninitialised; \<open>timer_B\<close> is the time point the timer
  is armed for. The template parameters \<^verbatim>\<open>ReloadEnabled\<close> and \<^verbatim>\<open>EntrySize\<close> are
  fields that no function changes.
\<close>

record ('k, 'v) loading_cache_B =
  heap_B :: "nat \<rightharpoonup> ('k, 'v) timestamped_val_B"
  set_B :: "nat list"
  lru_list_B :: "nat list"
  current_size_B :: "64 word"
  max_size_B :: "64 word"
  expiry_B :: int
  refresh_B :: "int option"
  timer_period_B :: "int option"
  timer_B :: "int option"
  next_B :: nat
  ReloadEnabled_B :: bool
  EntrySize_B :: "'v \<Rightarrow> 64 word"

definition caching_enabled_B :: "('k, 'v) loading_cache_B \<Rightarrow> bool" where
  "caching_enabled_B c = (expiry_B c \<noteq> 0)"

text \<open>The member initialisers shared by the two constructors of variant B.\<close>

definition members_B ::
  "bool \<Rightarrow> ('v \<Rightarrow> 64 word) \<Rightarrow> 64 word \<Rightarrow> int \<Rightarrow> int option \<Rightarrow> ('k, 'v) loading_cache_B" where
  "members_B re esz max_size expiry refresh =
     \<lparr>heap_B = Map.empty, set_B = [], lru_list_B = [], current_size_B = 0,
      max_size_B = max_size, expiry_B = expiry, refresh_B = refresh,
      timer_period_B = None, timer_B = None, next_B = 0,
      ReloadEnabled_B = re, EntrySize_B = esz\<rparr>"

text \<open>
  The constructor with a loader (\<^verbatim>\<open>ReloadEnabled == true\<close>). \<^verbatim>\<open>_timer.arm(_timer_period)\<close>
  arms the timer one period after the clock reading \<open>now\<close>.
\<close>

definition loading_cache_reload_B ::
  "('v \<Rightarrow> 64 word) \<Rightarrow> 64 word \<Rightarrow> int \<Rightarrow> int \<Rightarrow> int \<Rightarrow> exn + ('k, 'v) loading_cache_B" where
  "loading_cache_reload_B esz max_size expiry refresh now =
     (let c = members_B True esz max_size expiry (Some refresh) in
      if \<not> caching_enabled_B c then Inr c
      else if refresh = 0 \<or> max_size = 0 then Inl configuration_exception
      else Inr (c\<lparr>timer_period_B := Some (min expiry refresh),
                  timer_B := Some (chrono_plus now (min expiry refresh))\<rparr>))"

text \<open>
  The constructor without a loader (\<^verbatim>\<open>ReloadEnabled == false\<close>). The division of
  \<^verbatim>\<open>_expiry / 2\<close> truncates towards zero.
\<close>

definition loading_cache_B ::
  "('v \<Rightarrow> 64 word) \<Rightarrow> 64 word \<Rightarrow> int \<Rightarrow> int \<Rightarrow> exn + ('k, 'v) loading_cache_B" where
  "loading_cache_B esz max_size expiry now =
     (let c = members_B False esz max_size expiry None in
      if \<not> caching_enabled_B c then Inr c
      else if max_size = 0 then Inl configuration_exception
      else Inr (c\<lparr>timer_period_B := Some (max (expiry sdiv 2) 1),
                  timer_B := Some (chrono_plus now (max (expiry sdiv 2) 1))\<rparr>))"

subsection \<open>Futures\<close>

text \<open>
  What a call hands back before anything is awaited: a ready future
  (\<^verbatim>\<open>make_ready_future\<close>), the future of the loader \<^verbatim>\<open>_load(k)\<close> itself, or the future of
  \<^verbatim>\<open>_loading_values.get_or_load(k, ...)\<close> with the continuation of the caller attached.
  The last two say that the call has invoked the loader, or asked the registry to.
\<close>

datatype ('k, 'v) future =
    make_ready_future 'v
  | load_future 'k
  | get_or_load_future 'k

subsection \<open>Variant B: the entry\<close>

text \<open>
  \<^verbatim>\<open>Alloc().allocate(1)\<close> and the constructor of \<^verbatim>\<open>timestamped_val\<close>, for the key \<open>k\<close> and
  the value \<open>v\<close> behind \<^verbatim>\<open>val_ptr\<close>: the new object adds its size to the cache size.
  The result is the address of the object and the cache.
\<close>

definition timestamped_val_B ::
  "'k \<Rightarrow> 'v \<Rightarrow> int \<Rightarrow> ('k, 'v) loading_cache_B \<Rightarrow> nat \<times> ('k, 'v) loading_cache_B" where
  "timestamped_val_B k v now c =
     (let e = \<lparr>key_B = k, val_B = v, loaded_B = now, last_read_B = now,
                size_B = EntrySize_B c v\<rparr>
      in (next_B c,
          c\<lparr>heap_B := (heap_B c)(next_B c \<mapsto> e),
            next_B := Suc (next_B c),
            current_size_B := current_size_B c + size_B e\<rparr>))"

text \<open>
  \<^verbatim>\<open>destroy_ts_value\<close>: the destructor subtracts the size, the auto-unlink hook takes
  the object out of the LRU list, the memory is given back. Here and in the member
  functions below, the branch for an address that holds no object is there for
  totality: every caller looks the object up before it calls (the destructor of the
  cache walks the set, whose members are alive).
\<close>

definition destroy_ts_value_B ::
  "nat \<Rightarrow> ('k, 'v) loading_cache_B \<Rightarrow> ('k, 'v) loading_cache_B" where
  "destroy_ts_value_B a c =
     (case heap_B c a of
        None \<Rightarrow> c
      | Some e \<Rightarrow>
          c\<lparr>current_size_B := current_size_B c - size_B e,
            lru_list_B := remove1 a (lru_list_B c),
            heap_B := (heap_B c)(a := None)\<rparr>)"

text \<open>\<^verbatim>\<open>timestamped_val::operator=\<close> on the object at \<open>a\<close>.\<close>

definition assign_B ::
  "nat \<Rightarrow> 'v \<Rightarrow> int \<Rightarrow> ('k, 'v) loading_cache_B \<Rightarrow> ('k, 'v) loading_cache_B" where
  "assign_B a new_val now c =
     (case heap_B c a of
        None \<Rightarrow> c
      | Some e \<Rightarrow>
          (let e1 = e\<lparr>val_B := new_val, loaded_B := now\<rparr>;
               cs1 = current_size_B c - size_B e1;
               e2 = e1\<lparr>size_B := EntrySize_B c (val_B e1)\<rparr>;
               cs2 = cs1 + size_B e2
           in c\<lparr>heap_B := (heap_B c)(a \<mapsto> e2), current_size_B := cs2\<rparr>))"

text \<open>\<^verbatim>\<open>timestamped_val::touch\<close>: the read time, then unlink and push to the front.\<close>

definition touch_B ::
  "nat \<Rightarrow> int \<Rightarrow> ('k, 'v) loading_cache_B \<Rightarrow> ('k, 'v) loading_cache_B" where
  "touch_B a now c =
     (case heap_B c a of
        None \<Rightarrow> c
      | Some e \<Rightarrow>
          c\<lparr>heap_B := (heap_B c)(a \<mapsto> e\<lparr>last_read_B := now\<rparr>),
            lru_list_B := a # remove1 a (lru_list_B c)\<rparr>)"

text \<open>
  \<^verbatim>\<open>value()\<close> and \<^verbatim>\<open>pointer()\<close> touch and give the value (\<^verbatim>\<open>pointer()\<close> gives the shared
  handle, which is read here); \<^verbatim>\<open>peek()\<close> only reads. They are called on an object that
  is alive, which the callers below establish.
\<close>

definition pointer_B ::
  "nat \<Rightarrow> ('k, 'v) timestamped_val_B \<Rightarrow> int \<Rightarrow> ('k, 'v) loading_cache_B
     \<Rightarrow> 'v \<times> ('k, 'v) loading_cache_B" where
  "pointer_B a e now c = (val_B e, touch_B a now c)"

definition value_B ::
  "nat \<Rightarrow> ('k, 'v) timestamped_val_B \<Rightarrow> int \<Rightarrow> ('k, 'v) loading_cache_B
     \<Rightarrow> 'v \<times> ('k, 'v) loading_cache_B" where
  "value_B a e now c = (val_B e, touch_B a now c)"

definition peek_B :: "('k, 'v) timestamped_val_B \<Rightarrow> 'v" where
  "peek_B e = val_B e"

subsection \<open>Variant B: the public operations\<close>

text \<open>
  \<^verbatim>\<open>_set.find(k, Hash(), key_eq())\<close>: the address of the member of the set whose key is
  \<open>k\<close>, or \<open>None\<close> for \<^verbatim>\<open>_set.end()\<close>. The bucket array of the set is not modelled:
  \<^verbatim>\<open>sync_buckets_count\<close> and \<^verbatim>\<open>rehash\<close> change no membership.
\<close>

definition find_B :: "'k \<Rightarrow> ('k, 'v) loading_cache_B \<Rightarrow> nat option" where
  "find_B k c =
     List.find (\<lambda>a. case heap_B c a of None \<Rightarrow> False | Some e \<Rightarrow> key_B e = k) (set_B c)"

text \<open>\<^verbatim>\<open>erase(set_iterator)\<close>: out of the set, then destroyed.\<close>

definition erase_it_B ::
  "nat \<Rightarrow> ('k, 'v) loading_cache_B \<Rightarrow> ('k, 'v) loading_cache_B" where
  "erase_it_B a c = destroy_ts_value_B a (c\<lparr>set_B := remove1 a (set_B c)\<rparr>)"

text \<open>\<^verbatim>\<open>erase(const Key&)\<close>: the number of objects erased and the cache.\<close>

definition erase_B ::
  "'k \<Rightarrow> ('k, 'v) loading_cache_B \<Rightarrow> nat \<times> ('k, 'v) loading_cache_B" where
  "erase_B k c = (case find_B k c of None \<Rightarrow> (0, c) | Some a \<Rightarrow> (1, erase_it_B a c))"

text \<open>
  \<^verbatim>\<open>rehash_before_insert\<close> and \<^verbatim>\<open>periodic_rehash\<close> resize bucket arrays (and swallow
  what that throws); with the buckets left out, they change nothing.
\<close>

definition rehash_before_insert_B ::
  "('k, 'v) loading_cache_B \<Rightarrow> ('k, 'v) loading_cache_B" where
  "rehash_before_insert_B c = c"

definition periodic_rehash_B ::
  "('k, 'v) loading_cache_B \<Rightarrow> ('k, 'v) loading_cache_B" where
  "periodic_rehash_B c = c"

text \<open>
  \<^verbatim>\<open>get_ptr(k, load)\<close> up to the point where it returns a future. The \<^verbatim>\<open>assert\<close> aborts
  the program when caching is disabled.
\<close>

definition get_ptr_B ::
  "'k \<Rightarrow> int \<Rightarrow> ('k, 'v) loading_cache_B
     \<Rightarrow> exn + (('k, 'v) future \<times> ('k, 'v) loading_cache_B)" where
  "get_ptr_B k now c =
     (if \<not> caching_enabled_B c then Inl assertion_failed
      else case find_B k c of
          None \<Rightarrow> Inr (get_or_load_future k, c)
        | Some a \<Rightarrow>
            (case heap_B c a of
               None \<Rightarrow> Inl dangling_reference
             | Some e \<Rightarrow>
                 (let (v, c1) = pointer_B a e now c in Inr (make_ready_future v, c1))))"

text \<open>
  The continuation of \<^verbatim>\<open>get_ptr\<close>, run when the registry's future resolves to a handle
  whose value is \<open>v\<close>: the value handed back and the cache. \<open>now_ctor\<close> is the clock
  as the constructor of the new entry reads it, \<open>now\<close> the clock as \<^verbatim>\<open>touch\<close> reads it.
\<close>

definition get_ptr_then_B ::
  "'k \<Rightarrow> 'v \<Rightarrow> int \<Rightarrow> int \<Rightarrow> ('k, 'v) loading_cache_B
     \<Rightarrow> exn + ('v \<times> ('k, 'v) loading_cache_B)" where
  "get_ptr_then_B k v now_ctor now c =
     (case find_B k c of
        None \<Rightarrow>
          (let (a, c1) = timestamped_val_B k v now_ctor c;
               c2 = rehash_before_insert_B c1;
               c3 = c2\<lparr>set_B := a # set_B c2\<rparr>
           in case heap_B c3 a of
                None \<Rightarrow> Inl dangling_reference
              | Some e \<Rightarrow> Inr (pointer_B a e now c3))
      | Some a \<Rightarrow>
          (case heap_B c a of
             None \<Rightarrow> Inl dangling_reference
           | Some e \<Rightarrow> Inr (pointer_B a e now c)))"

text \<open>
  \<^verbatim>\<open>get(k)\<close> (compiled only with \<^verbatim>\<open>ReloadEnabled\<close>): with caching disabled the loader's
  future goes to the caller; otherwise \<^verbatim>\<open>get_ptr(k)\<close>, which is \<^verbatim>\<open>get_ptr(k, _load)\<close>.
\<close>

definition get_B ::
  "'k \<Rightarrow> int \<Rightarrow> ('k, 'v) loading_cache_B
     \<Rightarrow> exn + (('k, 'v) future \<times> ('k, 'v) loading_cache_B)" where
  "get_B k now c =
     (if \<not> caching_enabled_B c then Inr (load_future k, c) else get_ptr_B k now c)"

text \<open>\<^verbatim>\<open>at(k)\<close>.\<close>

definition at_B ::
  "'k \<Rightarrow> int \<Rightarrow> ('k, 'v) loading_cache_B \<Rightarrow> exn + ('v \<times> ('k, 'v) loading_cache_B)" where
  "at_B k now c =
     (case find_B k c of
        None \<Rightarrow> Inl entry_not_found
      | Some a \<Rightarrow>
          (case heap_B c a of
             None \<Rightarrow> Inl dangling_reference
           | Some e \<Rightarrow> Inr (value_B a e now c)))"

definition entries_count_B :: "('k, 'v) loading_cache_B \<Rightarrow> nat" where
  "entries_count_B c = length (set_B c)"

definition size_of_B :: "('k, 'v) loading_cache_B \<Rightarrow> 64 word" where
  "size_of_B c = current_size_B c"

text \<open>
  \<^verbatim>\<open>_lru_list.remove_and_dispose_if(pred, disposer)\<close> with the disposer
  \<^verbatim>\<open>erase(_set.iterator_to(*p))\<close>, as the walk over the list \<open>as\<close> that it is.
\<close>

fun remove_and_dispose_if_B ::
  "(('k, 'v) timestamped_val_B \<Rightarrow> bool) \<Rightarrow> nat list \<Rightarrow> ('k, 'v) loading_cache_B
     \<Rightarrow> ('k, 'v) loading_cache_B" where
  "remove_and_dispose_if_B P [] c = c"
| "remove_and_dispose_if_B P (a # as) c =
     remove_and_dispose_if_B P as
       (case heap_B c a of
          None \<Rightarrow> c
        | Some e \<Rightarrow> if P e then erase_it_B a c else c)"

definition remove_if_B ::
  "('v \<Rightarrow> bool) \<Rightarrow> ('k, 'v) loading_cache_B \<Rightarrow> ('k, 'v) loading_cache_B" where
  "remove_if_B pred c = remove_and_dispose_if_B (\<lambda>e. pred (peek_B e)) (lru_list_B c) c"

text \<open>The destructor: \<^verbatim>\<open>_set.clear_and_dispose\<close> destroys every member of the set.\<close>

definition destructor_B :: "('k, 'v) loading_cache_B \<Rightarrow> ('k, 'v) loading_cache_B" where
  "destructor_B c = fold destroy_ts_value_B (set_B c) (c\<lparr>set_B := []\<rparr>)"

subsection \<open>Variant B: the timer\<close>

definition expired_B ::
  "('k, 'v) loading_cache_B \<Rightarrow> int \<Rightarrow> ('k, 'v) timestamped_val_B \<Rightarrow> bool" where
  "expired_B c now v =
     (let since_last_read = now - last_read_B v;
          since_loaded = now - loaded_B v
      in expiry_B c < since_last_read \<or> (ReloadEnabled_B c \<and> expiry_B c < since_loaded))"

definition drop_expired_B ::
  "int \<Rightarrow> ('k, 'v) loading_cache_B \<Rightarrow> ('k, 'v) loading_cache_B" where
  "drop_expired_B now c = remove_and_dispose_if_B (expired_B c now) (lru_list_B c) c"

text \<open>
  \<^verbatim>\<open>shrink()\<close>. \<^verbatim>\<open>*_lru_list.rbegin()\<close> on an empty list, or on a list whose last item is
  no object, has no defined behaviour: \<open>None\<close>.
\<close>

function shrink_B :: "('k, 'v) loading_cache_B \<Rightarrow> ('k, 'v) loading_cache_B option" where
  "shrink_B c =
     (if max_size_B c < current_size_B c then
        (if lru_list_B c = [] \<or> heap_B c (last (lru_list_B c)) = None then None
         else shrink_B (erase_it_B (last (lru_list_B c)) c))
      else Some c)"
  by pat_completeness auto
termination
proof (relation "measure (\<lambda>c. length (lru_list_B c))")
  show "wf (measure (\<lambda>c :: ('k, 'v) loading_cache_B. length (lru_list_B c)))"
    by simp
next
  fix c :: "('k, 'v) loading_cache_B"
  assume "\<not> (lru_list_B c = [] \<or> heap_B c (last (lru_list_B c)) = None)"
  then obtain e where ne: "lru_list_B c \<noteq> []"
    and e: "heap_B c (last (lru_list_B c)) = Some e"
    by auto
  have "length (remove1 (last (lru_list_B c)) (lru_list_B c)) < length (lru_list_B c)"
    using ne by (simp add: length_remove1)
  then show "(erase_it_B (last (lru_list_B c)) c, c)
      \<in> measure (\<lambda>c. length (lru_list_B c))"
    using e by (simp add: erase_it_B_def destroy_ts_value_B_def)
qed

declare shrink_B.simps [simp del]

text \<open>
  \<^verbatim>\<open>on_timer()\<close>. \<open>timer_start_tp\<close> is the clock as read at the start (it is read and
  used only without \<^verbatim>\<open>ReloadEnabled\<close>), \<open>now\<close> the clock as read by \<^verbatim>\<open>drop_expired\<close>.
\<close>

definition on_timer_B ::
  "int \<Rightarrow> int \<Rightarrow> ('k, 'v) loading_cache_B \<Rightarrow> ('k, 'v) loading_cache_B option" where
  "on_timer_B timer_start_tp now c =
     (case shrink_B (drop_expired_B now c) of
        None \<Rightarrow> None
      | Some c2 \<Rightarrow>
          (let c3 = periodic_rehash_B c2
           in if \<not> ReloadEnabled_B c3
              then Some (c3\<lparr>timer_B := map_option (chrono_plus timer_start_tp) (timer_period_B c3)\<rparr>)
              else Some c3))"

text \<open>
  The test of the lambda that \<^verbatim>\<open>on_timer_with_reload\<close> gives to \<^verbatim>\<open>parallel_for_each\<close>:
  whether \<^verbatim>\<open>reload\<close> is called on the object at \<open>a\<close>.
\<close>

definition needs_reload_B :: "('k, 'v) loading_cache_B \<Rightarrow> int \<Rightarrow> nat \<Rightarrow> bool" where
  "needs_reload_B c curr_time a =
     (case (heap_B c a, refresh_B c) of
        (Some ts_val, Some refresh) \<Rightarrow> chrono_plus (loaded_B ts_val) refresh < curr_time
      | _ \<Rightarrow> False)"

text \<open>
  \<^verbatim>\<open>on_timer_with_reload()\<close> up to the end of the fan-out (\<^verbatim>\<open>_timer_reads_gate\<close> is open): the
  addresses of the objects on which \<^verbatim>\<open>reload\<close> is called, in the order of the set, and
  the cache. The timer is armed again later, when all reloads are over.
\<close>

definition on_timer_with_reload_B ::
  "int \<Rightarrow> int \<Rightarrow> ('k, 'v) loading_cache_B \<Rightarrow> (nat list \<times> ('k, 'v) loading_cache_B) option" where
  "on_timer_with_reload_B timer_start_tp now c =
     (case on_timer_B timer_start_tp now c of
        None \<Rightarrow> None
      | Some c1 \<Rightarrow> Some (filter (needs_reload_B c1 timer_start_tp) (set_B c1), c1))"

definition rearm_B ::
  "int \<Rightarrow> ('k, 'v) loading_cache_B \<Rightarrow> ('k, 'v) loading_cache_B" where
  "rearm_B timer_start_tp c =
     c\<lparr>timer_B := map_option (chrono_plus timer_start_tp) (timer_period_B c)\<rparr>"

text \<open>
  \<^verbatim>\<open>reload(ts_val)\<close> calls the loader with \<^verbatim>\<open>ts_val.key()\<close>; its continuation holds the
  reference \<^verbatim>\<open>&ts_val\<close>, here the address \<open>a\<close>, and runs on the loader's result \<open>f\<close>.
  Both branches go through the reference (the assignment, or \<^verbatim>\<open>ts_val.key()\<close> for the
  log line), which has no defined behaviour once the object is destroyed.
\<close>

definition reload_key_B :: "nat \<Rightarrow> ('k, 'v) loading_cache_B \<Rightarrow> 'k option" where
  "reload_key_B a c = map_option key_B (heap_B c a)"

definition reload_then_B ::
  "nat \<Rightarrow> exn + 'v \<Rightarrow> int \<Rightarrow> ('k, 'v) loading_cache_B \<Rightarrow> exn + ('k, 'v) loading_cache_B" where
  "reload_then_B a f now c =
     (case heap_B c a of
        None \<Rightarrow> Inl dangling_reference
      | Some ts_val \<Rightarrow>
          (case f of
             Inr new_val \<Rightarrow> Inr (assign_B a new_val now c)
           | Inl e \<Rightarrow> Inr c))"

subsection \<open>Variant A: the data\<close>

text \<open>
  A \<^verbatim>\<open>timestamped_val\<close> of variant A is the value of a slot of the registry.
  \<open>ready_A\<close> is \<^verbatim>\<open>_lru_entry_ptr != nullptr\<close>: the slot is anchored by an \<^verbatim>\<open>lru_entry\<close>.
\<close>

record 'v timestamped_val_A =
  val_A :: 'v
  loaded_A :: int
  last_read_A :: int
  ready_A :: bool
  size_A :: "64 word"

text \<open>
  The cache of variant A. \<open>loading_values_A\<close> holds the resolved slots of the registry
  by key. An \<^verbatim>\<open>lru_entry\<close> holds a shared pointer to one slot and a slot has at most one
  anchor, so an \<^verbatim>\<open>lru_entry\<close> is named by the key of its slot (\<^verbatim>\<open>lru_entry::key()\<close>) and
  \<open>lru_list_A\<close> is a list of keys, the MRU item at the front.
\<close>

record ('k, 'v) loading_cache_A =
  loading_values_A :: "'k \<rightharpoonup> 'v timestamped_val_A"
  lru_list_A :: "'k list"
  current_size_A :: "64 word"
  max_size_A :: "64 word"
  expiry_A :: int
  refresh_A :: int
  timer_period_A :: "int option"
  timer_A :: "int option"
  EntrySize_A :: "'v \<Rightarrow> 64 word"

definition caching_enabled_A :: "('k, 'v) loading_cache_A \<Rightarrow> bool" where
  "caching_enabled_A c = (expiry_A c \<noteq> 0)"

definition loading_cache_A ::
  "('v \<Rightarrow> 64 word) \<Rightarrow> 64 word \<Rightarrow> int \<Rightarrow> int \<Rightarrow> int \<Rightarrow> exn + ('k, 'v) loading_cache_A" where
  "loading_cache_A esz max_size expiry refresh now =
     (let c = \<lparr>loading_values_A = Map.empty, lru_list_A = [], current_size_A = 0,
               max_size_A = max_size, expiry_A = expiry, refresh_A = refresh,
               timer_period_A = None, timer_A = None, EntrySize_A = esz\<rparr> in
      if \<not> caching_enabled_A c then Inr c
      else if refresh = 0 \<or> max_size = 0 then Inl configuration_exception
      else Inr (c\<lparr>timer_period_A := Some (min expiry refresh),
                  timer_A := Some (chrono_plus now (min expiry refresh))\<rparr>))"

subsection \<open>Variant A: the registry\<close>

text \<open>
  The registry \<^verbatim>\<open>utils::loading_shared_values\<close> is declared in
  \<^verbatim>\<open>utils/loading_shared_values.hh\<close>, which is not among the sources: the three
  functions of it that the cache relies on are modelled from section 4.1 of the
  specification. The constructor of \<^verbatim>\<open>timestamped_val\<close> is the cache's own: it reads the
  clock once, and the slot is not anchored yet.
\<close>

definition timestamped_val_A :: "('v \<Rightarrow> 64 word) \<Rightarrow> 'v \<Rightarrow> int \<Rightarrow> 'v timestamped_val_A" where
  "timestamped_val_A esz v now =
     \<lparr>val_A = v, loaded_A = now, last_read_A = now, ready_A = False, size_A = esz v\<rparr>"

text \<open>
  Modelled from the spec: \<^verbatim>\<open>loading_shared_values::find\<close>, missing from the sources.
  Section 4.1: \<^verbatim>\<open>find(k)\<close> is the lookup of a key among the registered entries; \<open>None\<close>
  is \<^verbatim>\<open>end()\<close>. Only resolved entries are kept in \<open>loading_values_A\<close>.
\<close>

definition find_A :: "'k \<Rightarrow> ('k, 'v) loading_cache_A \<Rightarrow> 'v timestamped_val_A option" where
  "find_A k c = loading_values_A c k"

text \<open>
  Modelled from the spec: \<^verbatim>\<open>loading_shared_values::get_or_load\<close>, missing from the
  sources, at the moment its future resolves. Section 4.1: if \<open>k\<close> is registered the
  future completes with the existing handle; otherwise the loader is invoked and its
  result registered, and a failure of the loader is propagated and the key is not
  registered. \<open>lr\<close> is the result of the loader if it is invoked. The loader that
  \<^verbatim>\<open>get\<close> of variant A passes builds the \<^verbatim>\<open>timestamped_val\<close> from the loaded value when
  the load completes, at the clock reading \<open>now\<close>.
\<close>

definition get_or_load_A ::
  "'k \<Rightarrow> exn + 'v \<Rightarrow> int \<Rightarrow> ('k, 'v) loading_cache_A \<Rightarrow> exn + ('k, 'v) loading_cache_A" where
  "get_or_load_A k lr now c =
     (case find_A k c of
        Some ts_val \<Rightarrow> Inr c
      | None \<Rightarrow>
          (case lr of
             Inl e \<Rightarrow> Inl e
           | Inr v \<Rightarrow>
               Inr (c\<lparr>loading_values_A :=
                       (loading_values_A c)(k \<mapsto> timestamped_val_A (EntrySize_A c) v now)\<rparr>)))"

text \<open>
  Modelled from the spec: the end of a shared handle (\<^verbatim>\<open>entry_ptr\<close>) of the registry,
  missing from the sources. Sections 3 and 9: a value is held by shared ownership
  through reference-counted handles, and after an eviction the next \<^verbatim>\<open>get\<close> loads
  afresh (section 8, scenario 3), so a slot leaves the registry with its last handle.
  Handles are not counted here: the handle given up is taken to be the last one unless
  an \<^verbatim>\<open>lru_entry\<close> still holds one, that is unless the slot is anchored.
\<close>

definition entry_ptr_release_A ::
  "'k \<Rightarrow> ('k, 'v) loading_cache_A \<Rightarrow> ('k, 'v) loading_cache_A" where
  "entry_ptr_release_A k c =
     (case loading_values_A c k of
        None \<Rightarrow> c
      | Some ts_val \<Rightarrow>
          if ready_A ts_val then c
          else c\<lparr>loading_values_A := (loading_values_A c)(k := None)\<rparr>)"

subsection \<open>Variant A: the entry and its anchor\<close>

text \<open>
  The constructor of \<^verbatim>\<open>lru_entry\<close> for the slot of \<open>k\<close>: the back reference is set and
  the size of the slot is added to the cache size. It does not link into the list.
\<close>

definition lru_entry_A :: "'k \<Rightarrow> ('k, 'v) loading_cache_A \<Rightarrow> ('k, 'v) loading_cache_A" where
  "lru_entry_A k c =
     (case loading_values_A c k of
        None \<Rightarrow> c
      | Some ts_val \<Rightarrow>
          c\<lparr>loading_values_A := (loading_values_A c)(k \<mapsto> ts_val\<lparr>ready_A := True\<rparr>),
            current_size_A := current_size_A c + size_A ts_val\<rparr>)"

text \<open>
  \<^verbatim>\<open>destroy_ts_value\<close>: the destructor of \<^verbatim>\<open>lru_entry\<close> subtracts the size and clears the
  back reference; the hook unlinks the anchor from the list; the handle
  \<^verbatim>\<open>_ts_val_ptr\<close> ends.
\<close>

definition destroy_ts_value_A ::
  "'k \<Rightarrow> ('k, 'v) loading_cache_A \<Rightarrow> ('k, 'v) loading_cache_A" where
  "destroy_ts_value_A k c =
     (case loading_values_A c k of
        None \<Rightarrow> c
      | Some ts_val \<Rightarrow>
          entry_ptr_release_A k
            (c\<lparr>current_size_A := current_size_A c - size_A ts_val,
               loading_values_A := (loading_values_A c)(k \<mapsto> ts_val\<lparr>ready_A := False\<rparr>),
               lru_list_A := remove1 k (lru_list_A c)\<rparr>))"

text \<open>
  \<^verbatim>\<open>timestamped_val::touch\<close> with \<^verbatim>\<open>lru_entry::touch\<close>, and \<^verbatim>\<open>value()\<close>. A handle keeps
  its slot alive; a slot that is not there stands for a handle that was not the last.
\<close>

definition touch_A ::
  "'k \<Rightarrow> int \<Rightarrow> ('k, 'v) loading_cache_A \<Rightarrow> exn + ('k, 'v) loading_cache_A" where
  "touch_A k now c =
     (case loading_values_A c k of
        None \<Rightarrow> Inl dangling_reference
      | Some ts_val \<Rightarrow>
          if \<not> ready_A ts_val then Inl assertion_failed
          else Inr (c\<lparr>loading_values_A := (loading_values_A c)(k \<mapsto> ts_val\<lparr>last_read_A := now\<rparr>),
                      lru_list_A := k # remove1 k (lru_list_A c)\<rparr>))"

definition value_A ::
  "'k \<Rightarrow> int \<Rightarrow> ('k, 'v) loading_cache_A \<Rightarrow> exn + ('v \<times> ('k, 'v) loading_cache_A)" where
  "value_A k now c =
     (case touch_A k now c of
        Inl e \<Rightarrow> Inl e
      | Inr c1 \<Rightarrow>
          (case loading_values_A c1 k of
             None \<Rightarrow> Inl dangling_reference
           | Some ts_val \<Rightarrow> Inr (val_A ts_val, c1)))"

text \<open>\<^verbatim>\<open>timestamped_val::operator=\<close> on the slot of \<open>k\<close>.\<close>

definition assign_A ::
  "'k \<Rightarrow> 'v \<Rightarrow> int \<Rightarrow> ('k, 'v) loading_cache_A \<Rightarrow> exn + ('k, 'v) loading_cache_A" where
  "assign_A k new_val now c =
     (case loading_values_A c k of
        None \<Rightarrow> Inl dangling_reference
      | Some ts_val \<Rightarrow>
          if \<not> ready_A ts_val then Inl assertion_failed
          else
            (let t1 = ts_val\<lparr>val_A := new_val, loaded_A := now\<rparr>;
                 cs1 = current_size_A c - size_A t1;
                 t2 = t1\<lparr>size_A := EntrySize_A c (val_A t1)\<rparr>;
                 cs2 = cs1 + size_A t2
             in Inr (c\<lparr>loading_values_A := (loading_values_A c)(k \<mapsto> t2),
                        current_size_A := cs2\<rparr>)))"

subsection \<open>Variant A: the operations\<close>

text \<open>\<^verbatim>\<open>set_find\<close>: the slot of \<open>k\<close> if it is there and anchored, \<open>None\<close> for \<^verbatim>\<open>set_end()\<close>.\<close>

definition set_find_A :: "'k \<Rightarrow> ('k, 'v) loading_cache_A \<Rightarrow> 'v timestamped_val_A option" where
  "set_find_A k c =
     (case find_A k c of
        None \<Rightarrow> None
      | Some ts_val \<Rightarrow> if \<not> ready_A ts_val then None else Some ts_val)"

text \<open>\<^verbatim>\<open>get(k)\<close> up to the point where it returns a future.\<close>

definition get_A ::
  "'k \<Rightarrow> ('k, 'v) loading_cache_A \<Rightarrow> ('k, 'v) future \<times> ('k, 'v) loading_cache_A" where
  "get_A k c =
     (if \<not> caching_enabled_A c then (load_future k, c) else (get_or_load_future k, c))"

text \<open>
  The continuation of \<^verbatim>\<open>get\<close>, run with the handle \<^verbatim>\<open>ts_val_ptr\<close> to the slot of \<open>k\<close>:
  the value or the exception of the future handed to the caller, and the cache. On
  the path that installs, the handle moves into the anchor; on the path that
  rejects, it ends with the lambda.
\<close>

definition get_then_A ::
  "'k \<Rightarrow> int \<Rightarrow> ('k, 'v) loading_cache_A \<Rightarrow> (exn + 'v) \<times> ('k, 'v) loading_cache_A" where
  "get_then_A k now c =
     (case loading_values_A c k of
        None \<Rightarrow> (Inl dangling_reference, c)
      | Some ts_val \<Rightarrow>
          if \<not> ready_A ts_val then
            (if max_size_A c < size_A ts_val
             then (Inl entry_is_too_big, entry_ptr_release_A k c)
             else
               (let c1 = lru_entry_A k c
                in case value_A k now c1 of
                     Inl e \<Rightarrow> (Inl e, c1)
                   | Inr (v, c2) \<Rightarrow> (Inr v, c2)))
          else
            (case value_A k now c of
               Inl e \<Rightarrow> (Inl e, c)
             | Inr (v, c2) \<Rightarrow> (Inr v, c2)))"

text \<open>
  \<^verbatim>\<open>reload(lru_entry)\<close> calls the loader with \<^verbatim>\<open>lru_entry.key()\<close> and keeps a copy of the
  key; its continuation runs on the copy \<open>key\<close> and the loader's result \<open>f\<close>.
\<close>

definition reload_then_A ::
  "'k \<Rightarrow> exn + 'v \<Rightarrow> int \<Rightarrow> ('k, 'v) loading_cache_A \<Rightarrow> exn + ('k, 'v) loading_cache_A" where
  "reload_then_A key f now c =
     (case set_find_A key c of
        None \<Rightarrow> Inr c
      | Some it \<Rightarrow>
          (case f of
             Inr new_val \<Rightarrow> assign_A key new_val now c
           | Inl e \<Rightarrow> Inr c))"

subsection \<open>Variant A: the timer\<close>

definition expired_A ::
  "('k, 'v) loading_cache_A \<Rightarrow> int \<Rightarrow> 'v timestamped_val_A \<Rightarrow> bool" where
  "expired_A c now v =
     (let since_last_read = now - last_read_A v;
          since_loaded = now - loaded_A v
      in expiry_A c < since_last_read \<or> expiry_A c < since_loaded)"

fun remove_and_dispose_if_A ::
  "('v timestamped_val_A \<Rightarrow> bool) \<Rightarrow> 'k list \<Rightarrow> ('k, 'v) loading_cache_A
     \<Rightarrow> ('k, 'v) loading_cache_A" where
  "remove_and_dispose_if_A P [] c = c"
| "remove_and_dispose_if_A P (k # ks) c =
     remove_and_dispose_if_A P ks
       (case loading_values_A c k of
          None \<Rightarrow> c
        | Some ts_val \<Rightarrow> if P ts_val then destroy_ts_value_A k c else c)"

definition drop_expired_A ::
  "int \<Rightarrow> ('k, 'v) loading_cache_A \<Rightarrow> ('k, 'v) loading_cache_A" where
  "drop_expired_A now c = remove_and_dispose_if_A (expired_A c now) (lru_list_A c) c"

function shrink_A :: "('k, 'v) loading_cache_A \<Rightarrow> ('k, 'v) loading_cache_A option" where
  "shrink_A c =
     (if max_size_A c < current_size_A c then
        (if lru_list_A c = [] \<or> loading_values_A c (last (lru_list_A c)) = None then None
         else shrink_A (destroy_ts_value_A (last (lru_list_A c)) c))
      else Some c)"
  by pat_completeness auto
termination
proof (relation "measure (\<lambda>c. length (lru_list_A c))")
  show "wf (measure (\<lambda>c :: ('k, 'v) loading_cache_A. length (lru_list_A c)))"
    by simp
next
  fix c :: "('k, 'v) loading_cache_A"
  assume "\<not> (lru_list_A c = [] \<or> loading_values_A c (last (lru_list_A c)) = None)"
  then obtain t where ne: "lru_list_A c \<noteq> []"
    and t: "loading_values_A c (last (lru_list_A c)) = Some t"
    by auto
  have "length (remove1 (last (lru_list_A c)) (lru_list_A c)) < length (lru_list_A c)"
    using ne by (simp add: length_remove1)
  then show "(destroy_ts_value_A (last (lru_list_A c)) c, c)
      \<in> measure (\<lambda>c. length (lru_list_A c))"
    using t by (simp add: destroy_ts_value_A_def entry_ptr_release_A_def)
qed

declare shrink_A.simps [simp del]

definition periodic_rehash_A ::
  "('k, 'v) loading_cache_A \<Rightarrow> ('k, 'v) loading_cache_A" where
  "periodic_rehash_A c = c"

text \<open>
  The test of the lambda that \<^verbatim>\<open>on_timer\<close> gives to \<^verbatim>\<open>parallel_for_each\<close>. The lambda
  reads the clock itself: \<open>clock_at k\<close> is the reading taken when the anchor of \<open>k\<close> is
  examined.
\<close>

definition needs_reload_A :: "('k, 'v) loading_cache_A \<Rightarrow> ('k \<Rightarrow> int) \<Rightarrow> 'k \<Rightarrow> bool" where
  "needs_reload_A c clock_at k =
     (case loading_values_A c k of
        None \<Rightarrow> False
      | Some ts_val \<Rightarrow> chrono_plus (loaded_A ts_val) (refresh_A c) < clock_at k)"

text \<open>
  \<^verbatim>\<open>on_timer()\<close> up to the end of the fan-out (\<^verbatim>\<open>_timer_reads_gate\<close> is open): the keys on whose
  anchors \<^verbatim>\<open>reload\<close> is called, in the order of the list, and the cache. \<open>now\<close> is the
  clock as read by \<^verbatim>\<open>drop_expired\<close>, the first reading of the tick.
\<close>

definition on_timer_A ::
  "int \<Rightarrow> ('k \<Rightarrow> int) \<Rightarrow> ('k, 'v) loading_cache_A
     \<Rightarrow> ('k list \<times> ('k, 'v) loading_cache_A) option" where
  "on_timer_A now clock_at c =
     (case shrink_A (drop_expired_A now c) of
        None \<Rightarrow> None
      | Some c2 \<Rightarrow>
          (let c3 = periodic_rehash_A c2
           in Some (filter (needs_reload_A c3 clock_at) (lru_list_A c3), c3)))"

text \<open>The \<^verbatim>\<open>finally\<close> of the fan-out arms the timer one period after a new clock reading.\<close>

definition rearm_A :: "int \<Rightarrow> ('k, 'v) loading_cache_A \<Rightarrow> ('k, 'v) loading_cache_A" where
  "rearm_A now c = c\<lparr>timer_A := map_option (chrono_plus now) (timer_period_A c)\<rparr>"

text \<open>The destructor: \<^verbatim>\<open>_lru_list.erase_and_dispose\<close> over the whole list.\<close>

definition destructor_A :: "('k, 'v) loading_cache_A \<Rightarrow> ('k, 'v) loading_cache_A" where
  "destructor_A c = fold destroy_ts_value_A (lru_list_A c) c"

section \<open>Runs\<close>

text \<open>
  A run of a cache is a list of atomic steps: the synchronous part of a public call,
  the continuation of a call whose future has resolved, a tick of the timer, the
  destructor. The steps of other calls may stand between a call and its continuation,
  as the reactor interleaves them. A step that aborts or has no defined behaviour has
  no state after it; an exception leaves the state as the throwing step left it.
\<close>

subsection \<open>Variant B\<close>

datatype ('k, 'v) op_B =
    Get_ptr_B 'k int
  | Get_ptr_then_B 'k 'v int int
  | Get_B 'k int
  | At_B 'k int
  | Erase_B 'k
  | Remove_if_B "'v \<Rightarrow> bool"
  | On_timer_B int int
  | On_timer_with_reload_B int int
  | Rearm_B int
  | Reload_then_B nat "exn + 'v" int
  | Destructor_B

fun step_B ::
  "('k, 'v) op_B \<Rightarrow> ('k, 'v) loading_cache_B \<Rightarrow> ('k, 'v) loading_cache_B option" where
  "step_B (Get_ptr_B k now) c =
     (case get_ptr_B k now c of Inl e \<Rightarrow> None | Inr (f, c1) \<Rightarrow> Some c1)"
| "step_B (Get_ptr_then_B k v now_ctor now) c =
     (case get_ptr_then_B k v now_ctor now c of Inl e \<Rightarrow> None | Inr (r, c1) \<Rightarrow> Some c1)"
| "step_B (Get_B k now) c =
     (case get_B k now c of Inl e \<Rightarrow> None | Inr (f, c1) \<Rightarrow> Some c1)"
| "step_B (At_B k now) c =
     (case at_B k now c of
        Inl e \<Rightarrow> if e = entry_not_found then Some c else None
      | Inr (r, c1) \<Rightarrow> Some c1)"
| "step_B (Erase_B k) c = Some (snd (erase_B k c))"
| "step_B (Remove_if_B pred) c = Some (remove_if_B pred c)"
| "step_B (On_timer_B timer_start_tp now) c = on_timer_B timer_start_tp now c"
| "step_B (On_timer_with_reload_B timer_start_tp now) c =
     map_option snd (on_timer_with_reload_B timer_start_tp now c)"
| "step_B (Rearm_B timer_start_tp) c = Some (rearm_B timer_start_tp c)"
| "step_B (Reload_then_B a f now) c =
     (case reload_then_B a f now c of Inl e \<Rightarrow> None | Inr c1 \<Rightarrow> Some c1)"
| "step_B Destructor_B c = Some (destructor_B c)"

fun run_B ::
  "('k, 'v) op_B list \<Rightarrow> ('k, 'v) loading_cache_B \<Rightarrow> ('k, 'v) loading_cache_B option" where
  "run_B [] c = Some c"
| "run_B (x # xs) c = (case step_B x c of None \<Rightarrow> None | Some c1 \<Rightarrow> run_B xs c1)"

text \<open>The sum of the cached sizes of the entries in the index.\<close>

definition resident_size_B :: "('k, 'v) loading_cache_B \<Rightarrow> 64 word" where
  "resident_size_B c =
     sum_list (map (\<lambda>a. case heap_B c a of None \<Rightarrow> 0 | Some e \<Rightarrow> size_B e) (set_B c))"

text \<open>
  The shape that every step keeps: the index and the LRU list hold the same objects,
  each once, these are the objects alive, and the allocator is ahead of them.
\<close>

definition shape_B :: "('k, 'v) loading_cache_B \<Rightarrow> bool" where
  "shape_B c =
     (distinct (set_B c) \<and> distinct (lru_list_B c)
      \<and> set (set_B c) = dom (heap_B c) \<and> set (lru_list_B c) = dom (heap_B c)
      \<and> (\<forall>a \<in> dom (heap_B c). a < next_B c))"

definition inv_B :: "('k, 'v) loading_cache_B \<Rightarrow> bool" where
  "inv_B c = (shape_B c \<and> current_size_B c = resident_size_B c)"

text \<open>For the proofs: the cached size at an address, and the cache size as a sum over the
  objects alive.\<close>

definition entry_size_B :: "('k, 'v) loading_cache_B \<Rightarrow> nat \<Rightarrow> 64 word" where
  "entry_size_B c a = (case heap_B c a of None \<Rightarrow> 0 | Some e \<Rightarrow> size_B e)"

definition lru_sized_B :: "('k, 'v) loading_cache_B \<Rightarrow> bool" where
  "lru_sized_B c =
     (distinct (lru_list_B c) \<and> set (lru_list_B c) = dom (heap_B c)
      \<and> current_size_B c = (\<Sum>a \<in> dom (heap_B c). entry_size_B c a))"

subsection \<open>Variant A\<close>

datatype ('k, 'v) op_A =
    Get_A 'k
  | Get_or_load_A 'k "exn + 'v" int
  | Get_then_A 'k int
  | On_timer_A int "'k \<Rightarrow> int"
  | Rearm_A int
  | Reload_then_A 'k "exn + 'v" int
  | Destructor_A

fun step_A ::
  "('k, 'v) op_A \<Rightarrow> ('k, 'v) loading_cache_A \<Rightarrow> ('k, 'v) loading_cache_A option" where
  "step_A (Get_A k) c = Some (snd (get_A k c))"
| "step_A (Get_or_load_A k lr now) c =
     (case get_or_load_A k lr now c of Inl e \<Rightarrow> Some c | Inr c1 \<Rightarrow> Some c1)"
| "step_A (Get_then_A k now) c =
     (case get_then_A k now c of
        (Inl e, c1) \<Rightarrow> if e = entry_is_too_big then Some c1 else None
      | (Inr v, c1) \<Rightarrow> Some c1)"
| "step_A (On_timer_A now clock_at) c = map_option snd (on_timer_A now clock_at c)"
| "step_A (Rearm_A now) c = Some (rearm_A now c)"
| "step_A (Reload_then_A key f now) c =
     (case reload_then_A key f now c of Inl e \<Rightarrow> None | Inr c1 \<Rightarrow> Some c1)"
| "step_A Destructor_A c = Some (destructor_A c)"

fun run_A ::
  "('k, 'v) op_A list \<Rightarrow> ('k, 'v) loading_cache_A \<Rightarrow> ('k, 'v) loading_cache_A option" where
  "run_A [] c = Some c"
| "run_A (x # xs) c = (case step_A x c of None \<Rightarrow> None | Some c1 \<Rightarrow> run_A xs c1)"

text \<open>The sum of the cached sizes of the anchored slots, which the LRU list names.\<close>

definition resident_size_A :: "('k, 'v) loading_cache_A \<Rightarrow> 64 word" where
  "resident_size_A c =
     sum_list (map (\<lambda>k. case loading_values_A c k of None \<Rightarrow> 0 | Some t \<Rightarrow> size_A t)
       (lru_list_A c))"

definition shape_A :: "('k, 'v) loading_cache_A \<Rightarrow> bool" where
  "shape_A c =
     (distinct (lru_list_A c)
      \<and> (\<forall>k. k \<in> set (lru_list_A c) \<longleftrightarrow> set_find_A k c \<noteq> None))"

definition inv_A :: "('k, 'v) loading_cache_A \<Rightarrow> bool" where
  "inv_A c = (shape_A c \<and> current_size_A c = resident_size_A c)"

definition entry_size_A :: "('k, 'v) loading_cache_A \<Rightarrow> 'k \<Rightarrow> 64 word" where
  "entry_size_A c k = (case loading_values_A c k of None \<Rightarrow> 0 | Some t \<Rightarrow> size_A t)"

section \<open>Example caches\<close>

text \<open>
  The caches of the end-to-end scenarios: the size of a string is its length,
  \<^verbatim>\<open>max_size = 4\<close>, \<^verbatim>\<open>expiry = 100\<close>, \<^verbatim>\<open>refresh = 50\<close>, constructed at time 0; then the
  key 1 is loaded with the value \<^verbatim>\<open>"a"\<close> at time 6.
\<close>

definition example_size :: "string \<Rightarrow> 64 word" where
  "example_size v = of_nat (length v)"

definition example_B :: "(nat, string) loading_cache_B" where
  "example_B = projr (loading_cache_reload_B example_size 4 100 50 0)"

definition example_B1 :: "(nat, string) loading_cache_B" where
  "example_B1 = snd (projr (get_ptr_then_B 1 ''a'' 6 6 example_B))"

definition example_A :: "(nat, string) loading_cache_A" where
  "example_A = projr (loading_cache_A example_size 4 100 50 0)"

definition example_A1 :: "(nat, string) loading_cache_A" where
  "example_A1 = snd (get_then_A 1 6 (projr (get_or_load_A 1 (Inr ''a'') 6 example_A)))"

text \<open>
  The same caches with \<^verbatim>\<open>refresh = std::chrono::milliseconds::max()\<close>, which the
  constructors accept.
\<close>

definition example_B2 :: "(nat, string) loading_cache_B" where
  "example_B2 =
     snd (projr (get_ptr_then_B 1 ''a'' 6 6
       (projr (loading_cache_reload_B example_size 4 100 9223372036854775807 0))))"

definition example_A2 :: "(nat, string) loading_cache_A" where
  "example_A2 =
     snd (get_then_A 1 6 (projr (get_or_load_A 1 (Inr ''a'') 6
       (projr (loading_cache_A example_size 4 100 9223372036854775807 0)))))"

text \<open>
  A run of variant B from the constructed cache: \<^verbatim>\<open>get_ptr(1)\<close> misses, the load of
  \<^verbatim>\<open>"a"\<close> is installed at time 6, the tick at time 60 starts a reload of the entry,
  and \<^verbatim>\<open>erase(1)\<close> is called while the loader is in flight.
\<close>

definition erased_reload_run_B :: "(nat, string) op_B list" where
  "erased_reload_run_B =
     [Get_ptr_B 1 5, Get_ptr_then_B 1 ''a'' 6 6, On_timer_with_reload_B 60 60, Erase_B 1]"

section \<open>Sums of time in the representation\<close>

lemma chrono_plus_exact:
  "- (2 ^ 63) \<le> a + b \<Longrightarrow> a + b < 2 ^ 63 \<Longrightarrow> chrono_plus a b = a + b"
  by (simp add: chrono_plus_def)

lemma chrono_plus_range: "- (2 ^ 63) \<le> chrono_plus a b \<and> chrono_plus a b < 2 ^ 63"
  by (simp add: chrono_plus_def)

section \<open>What every step of variant B keeps\<close>

lemma finite_dom_shape_B: "shape_B c \<Longrightarrow> finite (dom (heap_B c))"
  unfolding shape_B_def by (metis List.finite_set)

lemma resident_size_B_sum:
  "shape_B c \<Longrightarrow> resident_size_B c = (\<Sum>a \<in> dom (heap_B c). entry_size_B c a)"
  unfolding shape_B_def resident_size_B_def entry_size_B_def
  by (metis sum_list_distinct_conv_sum_set)

lemma inv_B_iff: "inv_B c \<longleftrightarrow> shape_B c \<and> lru_sized_B c"
  using resident_size_B_sum [of c]
  by (auto simp: inv_B_def lru_sized_B_def shape_B_def)

lemma sum_dom_delete:
  fixes f :: "nat \<Rightarrow> 64 word"
  assumes "finite (dom h)" "h a = Some e"
  shows "(\<Sum>x \<in> dom (h(a := None)). f x) = (\<Sum>x \<in> dom h. f x) - f a"
proof -
  have "dom (h(a := None)) = dom h - {a}" by auto
  moreover have "a \<in> dom h" using assms by auto
  ultimately show ?thesis using assms(1) by (simp add: sum_diff1)
qed

lemma lru_sized_destroy_B:
  assumes "lru_sized_B c"
  shows "lru_sized_B (destroy_ts_value_B a c)"
proof (cases "heap_B c a")
  case None
  then show ?thesis using assms by (simp add: destroy_ts_value_B_def)
next
  case (Some e)
  have fin: "finite (dom (heap_B c))"
    using assms unfolding lru_sized_B_def by (metis List.finite_set)
  have eq: "\<And>x. x \<in> dom ((heap_B c)(a := None)) \<Longrightarrow>
      entry_size_B (destroy_ts_value_B a c) x = entry_size_B c x"
    using Some by (auto simp: entry_size_B_def destroy_ts_value_B_def)
  have "(\<Sum>x \<in> dom ((heap_B c)(a := None)). entry_size_B (destroy_ts_value_B a c) x)
      = (\<Sum>x \<in> dom ((heap_B c)(a := None)). entry_size_B c x)"
    by (rule sum.cong) (use eq in auto)
  also have "\<dots> = (\<Sum>x \<in> dom (heap_B c). entry_size_B c x) - entry_size_B c a"
    by (rule sum_dom_delete [OF fin Some])
  finally show ?thesis
    using assms Some
    by (auto simp: lru_sized_B_def destroy_ts_value_B_def entry_size_B_def)
qed

lemma shape_erase_it_B:
  assumes "shape_B c"
  shows "shape_B (erase_it_B a c)"
proof (cases "heap_B c a")
  case None
  then have "a \<notin> set (set_B c)" using assms by (auto simp: shape_B_def)
  then have "remove1 a (set_B c) = set_B c" by (simp add: remove1_idem)
  then show ?thesis using assms None by (simp add: erase_it_B_def destroy_ts_value_B_def)
next
  case (Some e)
  then show ?thesis using assms
    by (auto simp: shape_B_def erase_it_B_def destroy_ts_value_B_def)
qed

lemma lru_sized_set_upd_B: "lru_sized_B (c\<lparr>set_B := s\<rparr>) = lru_sized_B c"
  by (simp add: lru_sized_B_def entry_size_B_def)

lemma inv_erase_it_B: "inv_B c \<Longrightarrow> inv_B (erase_it_B a c)"
  unfolding inv_B_iff
  using shape_erase_it_B [of c a] lru_sized_destroy_B [of "c\<lparr>set_B := remove1 a (set_B c)\<rparr>" a]
  by (simp add: erase_it_B_def lru_sized_set_upd_B)

lemma inv_touch_B:
  assumes "inv_B c"
  shows "inv_B (touch_B a now c)"
proof (cases "heap_B c a")
  case None
  then show ?thesis using assms by (simp add: touch_B_def)
next
  case (Some e)
  let ?c = "touch_B a now c"
  have dom: "dom (heap_B ?c) = dom (heap_B c)"
    using Some by (auto simp: touch_B_def)
  have sz: "\<And>x. entry_size_B ?c x = entry_size_B c x"
    using Some by (auto simp: touch_B_def entry_size_B_def)
  have a: "a \<in> set (lru_list_B c)" using assms Some by (auto simp: inv_B_iff shape_B_def)
  have "shape_B ?c"
    using assms Some a by (auto simp: inv_B_iff shape_B_def touch_B_def)
  moreover have "lru_sized_B ?c"
    using assms a unfolding inv_B_iff lru_sized_B_def dom sz
    using Some by (auto simp: touch_B_def)
  ultimately show ?thesis by (simp add: inv_B_iff)
qed

lemma inv_assign_B:
  assumes "inv_B c"
  shows "inv_B (assign_B a v now c)"
proof (cases "heap_B c a")
  case None
  then show ?thesis using assms by (simp add: assign_B_def)
next
  case (Some e)
  let ?c = "assign_B a v now c"
  have fin: "finite (dom (heap_B c))" using assms by (simp add: inv_B_iff finite_dom_shape_B)
  have a: "a \<in> dom (heap_B c)" using Some by auto
  have dom: "dom (heap_B ?c) = dom (heap_B c)"
    using Some by (auto simp: assign_B_def Let_def)
  have cs: "current_size_B ?c = current_size_B c - size_B e + EntrySize_B c v"
    using Some by (simp add: assign_B_def Let_def)
  have sza: "entry_size_B ?c a = EntrySize_B c v"
    using Some by (simp add: assign_B_def Let_def entry_size_B_def)
  have szo: "\<And>x. x \<noteq> a \<Longrightarrow> entry_size_B ?c x = entry_size_B c x"
    using Some by (simp add: assign_B_def Let_def entry_size_B_def)
  have "(\<Sum>x \<in> dom (heap_B c). entry_size_B ?c x)
      = entry_size_B ?c a + (\<Sum>x \<in> dom (heap_B c) - {a}. entry_size_B ?c x)"
    using fin a by (simp add: sum.remove)
  also have "(\<Sum>x \<in> dom (heap_B c) - {a}. entry_size_B ?c x)
      = (\<Sum>x \<in> dom (heap_B c) - {a}. entry_size_B c x)"
    by (rule sum.cong) (use szo in auto)
  also have "\<dots> = (\<Sum>x \<in> dom (heap_B c). entry_size_B c x) - entry_size_B c a"
    using fin a by (simp add: sum_diff1)
  finally have sum: "(\<Sum>x \<in> dom (heap_B c). entry_size_B ?c x)
      = (\<Sum>x \<in> dom (heap_B c). entry_size_B c x) - size_B e + EntrySize_B c v"
    using Some sza by (simp add: entry_size_B_def)
  have "shape_B ?c"
    using assms Some by (auto simp: inv_B_iff shape_B_def assign_B_def Let_def)
  moreover have "lru_sized_B ?c"
    using assms unfolding inv_B_iff lru_sized_B_def dom cs sum
    using Some by (auto simp: assign_B_def Let_def)
  ultimately show ?thesis by (simp add: inv_B_iff)
qed


lemma inv_install_B:
  assumes "inv_B c"
  shows "inv_B (touch_B (next_B c) now
           ((rehash_before_insert_B (snd (timestamped_val_B k v now_ctor c)))
              \<lparr>set_B := next_B c # set_B (rehash_before_insert_B (snd (timestamped_val_B k v now_ctor c)))\<rparr>))"
    (is "inv_B ?c")
proof -
  let ?a = "next_B c"
  have fresh: "?a \<notin> dom (heap_B c)"
    using assms by (auto simp: inv_B_iff shape_B_def)
  have fin: "finite (dom (heap_B c))" using assms by (simp add: inv_B_iff finite_dom_shape_B)
  have notin: "?a \<notin> set (lru_list_B c)" "?a \<notin> set (set_B c)"
    using assms fresh by (auto simp: inv_B_iff shape_B_def)
  have dom: "dom (heap_B ?c) = insert ?a (dom (heap_B c))"
    by (auto simp: touch_B_def timestamped_val_B_def rehash_before_insert_B_def Let_def)
  have cs: "current_size_B ?c = current_size_B c + EntrySize_B c v"
    by (simp add: touch_B_def timestamped_val_B_def rehash_before_insert_B_def Let_def)
  have lru: "lru_list_B ?c = ?a # lru_list_B c"
    using notin by (simp add: touch_B_def timestamped_val_B_def rehash_before_insert_B_def
        Let_def remove1_idem)
  have set: "set_B ?c = ?a # set_B c"
    by (simp add: touch_B_def timestamped_val_B_def rehash_before_insert_B_def Let_def)
  have nxt: "next_B ?c = Suc ?a"
    by (simp add: touch_B_def timestamped_val_B_def rehash_before_insert_B_def Let_def)
  have sza: "entry_size_B ?c ?a = EntrySize_B c v"
    by (simp add: touch_B_def timestamped_val_B_def rehash_before_insert_B_def Let_def
        entry_size_B_def)
  have szo: "\<And>x. x \<noteq> ?a \<Longrightarrow> entry_size_B ?c x = entry_size_B c x"
    by (simp add: touch_B_def timestamped_val_B_def rehash_before_insert_B_def Let_def
        entry_size_B_def)
  have "(\<Sum>x \<in> dom (heap_B c). entry_size_B ?c x) = (\<Sum>x \<in> dom (heap_B c). entry_size_B c x)"
  proof (rule sum.cong)
    fix x assume "x \<in> dom (heap_B c)"
    then have "x \<noteq> ?a" using fresh by blast
    then show "entry_size_B ?c x = entry_size_B c x" by (rule szo)
  qed simp
  then have sum: "(\<Sum>x \<in> insert ?a (dom (heap_B c)). entry_size_B ?c x)
      = EntrySize_B c v + (\<Sum>x \<in> dom (heap_B c). entry_size_B c x)"
    using fin fresh sza by simp
  have "shape_B ?c"
    using assms notin unfolding inv_B_iff shape_B_def dom lru set nxt
    by (auto simp: less_Suc_eq)
  moreover have "lru_sized_B ?c"
    using assms notin unfolding inv_B_iff lru_sized_B_def dom cs sum lru
    by (auto simp: shape_B_def)
  ultimately show ?thesis by (simp add: inv_B_iff)
qed

lemma get_ptr_then_B_miss:
  assumes "find_B k c = None"
  shows "get_ptr_then_B k v now_ctor now c =
     Inr (v, touch_B (next_B c) now
           ((rehash_before_insert_B (snd (timestamped_val_B k v now_ctor c)))
              \<lparr>set_B := next_B c # set_B (rehash_before_insert_B (snd (timestamped_val_B k v now_ctor c)))\<rparr>))"
  using assms
  by (simp add: get_ptr_then_B_def pointer_B_def Let_def timestamped_val_B_def
      rehash_before_insert_B_def)

lemma inv_get_ptr_then_B:
  assumes "inv_B c" "get_ptr_then_B k v now_ctor now c = Inr (r, c1)"
  shows "inv_B c1"
proof (cases "find_B k c")
  case None
  have "inv_B (snd (v, touch_B (next_B c) now
           ((rehash_before_insert_B (snd (timestamped_val_B k v now_ctor c)))
              \<lparr>set_B := next_B c # set_B (rehash_before_insert_B (snd (timestamped_val_B k v now_ctor c)))\<rparr>)))"
    using inv_install_B [OF assms(1), of now k v now_ctor] by simp
  then show ?thesis
    using assms(2) unfolding get_ptr_then_B_miss [OF None] by auto
next
  case (Some a)
  show ?thesis
  proof (cases "heap_B c a")
    case None
    then show ?thesis using assms(2) Some by (simp add: get_ptr_then_B_def)
  next
    case (Some e)
    then have "c1 = touch_B a now c"
      using assms(2) \<open>find_B k c = Some a\<close> by (simp add: get_ptr_then_B_def pointer_B_def)
    then show ?thesis using inv_touch_B [OF assms(1)] by simp
  qed
qed

lemma inv_get_ptr_B:
  assumes "inv_B c" "get_ptr_B k now c = Inr (f, c1)"
  shows "inv_B c1"
  using assms inv_touch_B [of c _ now]
  by (auto simp: get_ptr_B_def pointer_B_def split: option.splits if_splits)

lemma inv_get_B:
  assumes "inv_B c" "get_B k now c = Inr (f, c1)"
  shows "inv_B c1"
  using assms inv_get_ptr_B [of c k now f c1]
  by (auto simp: get_B_def split: if_splits)

lemma inv_at_B:
  assumes "inv_B c" "at_B k now c = Inr (r, c1)"
  shows "inv_B c1"
  using assms inv_touch_B [of c _ now]
  by (auto simp: at_B_def value_B_def split: option.splits)

lemma inv_erase_B: "inv_B c \<Longrightarrow> inv_B (snd (erase_B k c))"
  by (auto simp: erase_B_def inv_erase_it_B split: option.splits)

lemma inv_remove_and_dispose_if_B:
  "inv_B c \<Longrightarrow> inv_B (remove_and_dispose_if_B P as c)"
  by (induction as arbitrary: c) (auto simp: inv_erase_it_B split: option.splits)

lemma inv_remove_if_B: "inv_B c \<Longrightarrow> inv_B (remove_if_B pred c)"
  by (simp add: remove_if_B_def inv_remove_and_dispose_if_B)

lemma inv_drop_expired_B: "inv_B c \<Longrightarrow> inv_B (drop_expired_B now c)"
  by (simp add: drop_expired_B_def inv_remove_and_dispose_if_B)

lemma inv_shrink_B: "inv_B c \<Longrightarrow> shrink_B c = Some c1 \<Longrightarrow> inv_B c1"
proof (induction c rule: shrink_B.induct)
  case (1 c)
  show ?case
  proof (cases "max_size_B c < current_size_B c")
    case False
    then have "shrink_B c = Some c" by (subst shrink_B.simps) simp
    then show ?thesis using "1.prems" by simp
  next
    case True
    show ?thesis
    proof (cases "lru_list_B c = [] \<or> heap_B c (last (lru_list_B c)) = None")
      case True
      with \<open>max_size_B c < current_size_B c\<close> have "shrink_B c = None"
        by (subst shrink_B.simps) simp
      then show ?thesis using "1.prems" by simp
    next
      case False
      with \<open>max_size_B c < current_size_B c\<close>
      have "shrink_B c = shrink_B (erase_it_B (last (lru_list_B c)) c)"
        by (subst shrink_B.simps) auto
      then have "shrink_B (erase_it_B (last (lru_list_B c)) c) = Some c1"
        using "1.prems"(2) by simp
      then show ?thesis
        using "1.IH" [OF \<open>max_size_B c < current_size_B c\<close> False
            inv_erase_it_B [OF "1.prems"(1)]] by simp
    qed
  qed
qed

lemma inv_on_timer_B: "inv_B c \<Longrightarrow> on_timer_B ts now c = Some c1 \<Longrightarrow> inv_B c1"
proof -
  assume i: "inv_B c" and o: "on_timer_B ts now c = Some c1"
  from o obtain c2 where s: "shrink_B (drop_expired_B now c) = Some c2"
    and c1: "c1 = c2 \<or> c1 = c2\<lparr>timer_B := map_option (chrono_plus ts) (timer_period_B c2)\<rparr>"
    by (auto simp: on_timer_B_def periodic_rehash_B_def Let_def split: option.splits if_splits)
  have "inv_B c2" using inv_shrink_B [OF inv_drop_expired_B [OF i] s] .
  then show "inv_B c1" using c1
    by (auto simp: inv_B_def shape_B_def resident_size_B_def)
qed

lemma dom_fold_destroy_B:
  "dom (heap_B (fold destroy_ts_value_B as c)) = dom (heap_B c) - set as"
proof (induction as arbitrary: c)
  case Nil
  then show ?case by simp
next
  case (Cons a as)
  have "dom (heap_B (destroy_ts_value_B a c)) = dom (heap_B c) - {a}"
    by (auto simp: destroy_ts_value_B_def split: option.splits)
  then show ?case using Cons [of "destroy_ts_value_B a c"] by auto
qed

lemma set_fold_destroy_B: "set_B (fold destroy_ts_value_B as c) = set_B c"
  by (induction as arbitrary: c) (auto simp: destroy_ts_value_B_def split: option.splits)

lemma next_fold_destroy_B: "next_B (fold destroy_ts_value_B as c) = next_B c"
  by (induction as arbitrary: c) (auto simp: destroy_ts_value_B_def split: option.splits)

lemma lru_sized_fold_destroy_B:
  "lru_sized_B c \<Longrightarrow> lru_sized_B (fold destroy_ts_value_B as c)"
  by (induction as arbitrary: c) (auto simp: lru_sized_destroy_B)

lemma inv_destructor_B:
  assumes "inv_B c"
  shows "inv_B (destructor_B c)"
proof -
  let ?c = "destructor_B c"
  have "lru_sized_B (c\<lparr>set_B := []\<rparr>)"
    using assms by (simp add: inv_B_iff lru_sized_set_upd_B)
  then have ls: "lru_sized_B ?c"
    unfolding destructor_B_def by (rule lru_sized_fold_destroy_B)
  have "dom (heap_B ?c) = {}"
    using assms by (simp add: destructor_B_def dom_fold_destroy_B inv_B_iff shape_B_def)
  moreover have "set_B ?c = []"
    by (simp add: destructor_B_def set_fold_destroy_B)
  ultimately have "shape_B ?c"
    using ls by (simp add: shape_B_def lru_sized_B_def)
  then show ?thesis using ls by (simp add: inv_B_iff)
qed

lemma inv_reload_then_B:
  "inv_B c \<Longrightarrow> reload_then_B a f now c = Inr c1 \<Longrightarrow> inv_B c1"
  by (auto simp: reload_then_B_def inv_assign_B split: option.splits sum.splits)

lemma inv_rearm_B: "inv_B c \<Longrightarrow> inv_B (rearm_B ts c)"
  by (simp add: inv_B_def shape_B_def resident_size_B_def rearm_B_def)

lemma inv_step_B: "inv_B c \<Longrightarrow> step_B x c = Some c1 \<Longrightarrow> inv_B c1"
proof (cases x)
  case (At_B k now)
  assume "inv_B c" "step_B x c = Some c1"
  then show ?thesis using At_B inv_at_B [of c k now _ c1]
    by (auto split: sum.splits if_splits)
qed (auto split: sum.splits option.splits
       dest: inv_get_ptr_B inv_get_ptr_then_B inv_get_B inv_on_timer_B inv_reload_then_B
       simp: inv_erase_B inv_remove_if_B inv_rearm_B inv_destructor_B
         on_timer_with_reload_B_def)

lemma inv_run_B: "inv_B c \<Longrightarrow> run_B xs c = Some c1 \<Longrightarrow> inv_B c1"
  by (induction xs arbitrary: c) (auto split: option.splits dest: inv_step_B)

lemma inv_members_B: "inv_B (members_B re esz m e r)"
  by (simp add: inv_B_def shape_B_def resident_size_B_def members_B_def)

lemma inv_loading_cache_reload_B:
  "loading_cache_reload_B esz m e r t = Inr c \<Longrightarrow> inv_B c"
  using inv_members_B [of True esz m e "Some r"]
  by (auto simp: loading_cache_reload_B_def Let_def inv_B_def shape_B_def resident_size_B_def
      split: if_splits)

lemma inv_loading_cache_B:
  "loading_cache_B esz m e t = Inr c \<Longrightarrow> inv_B c"
  using inv_members_B [of False esz m e None]
  by (auto simp: loading_cache_B_def Let_def inv_B_def shape_B_def resident_size_B_def
      split: if_splits)

section \<open>What every step of variant A keeps\<close>

lemma resident_size_A_sum:
  "distinct (lru_list_A c) \<Longrightarrow>
     resident_size_A c = (\<Sum>k \<in> set (lru_list_A c). entry_size_A c k)"
  unfolding resident_size_A_def entry_size_A_def
  by (metis sum_list_distinct_conv_sum_set)

lemma inv_A_iff:
  "inv_A c \<longleftrightarrow> shape_A c \<and> current_size_A c = (\<Sum>k \<in> set (lru_list_A c). entry_size_A c k)"
  using resident_size_A_sum [of c] by (auto simp: inv_A_def shape_A_def)

lemma set_find_A_Some:
  "set_find_A k c \<noteq> None \<longleftrightarrow> (\<exists>t. loading_values_A c k = Some t \<and> ready_A t)"
  by (auto simp: set_find_A_def find_A_def split: option.splits)

lemma shape_A_member:
  "shape_A c \<Longrightarrow> k \<in> set (lru_list_A c) \<longleftrightarrow> (\<exists>t. loading_values_A c k = Some t \<and> ready_A t)"
  unfolding shape_A_def set_find_A_Some by blast

lemma destroy_ts_value_A_anchored:
  assumes "loading_values_A c k = Some t"
  shows "destroy_ts_value_A k c =
     c\<lparr>current_size_A := current_size_A c - size_A t,
       loading_values_A := (loading_values_A c)(k := None),
       lru_list_A := remove1 k (lru_list_A c)\<rparr>"
  using assms by (simp add: destroy_ts_value_A_def entry_ptr_release_A_def)

lemma inv_destroy_A:
  assumes "inv_A c" "k \<in> set (lru_list_A c)"
  shows "inv_A (destroy_ts_value_A k c)"
proof -
  from assms obtain t where t: "loading_values_A c k = Some t" "ready_A t"
    by (auto simp: inv_A_iff shape_A_member)
  let ?c = "destroy_ts_value_A k c"
  have c: "?c = c\<lparr>current_size_A := current_size_A c - size_A t,
       loading_values_A := (loading_values_A c)(k := None),
       lru_list_A := remove1 k (lru_list_A c)\<rparr>"
    by (rule destroy_ts_value_A_anchored [OF t(1)])
  have d: "distinct (lru_list_A c)" using assms by (simp add: inv_A_iff shape_A_def)
  have lru: "set (lru_list_A ?c) = set (lru_list_A c) - {k}"
    using d by (simp add: c)
  have "shape_A ?c"
    unfolding shape_A_def set_find_A_Some
  proof (intro conjI allI)
    show "distinct (lru_list_A ?c)" using d by (simp add: c)
  next
    fix k'
    show "k' \<in> set (lru_list_A ?c) \<longleftrightarrow> (\<exists>t. loading_values_A ?c k' = Some t \<and> ready_A t)"
      using shape_A_member [of c k'] assms(1) unfolding lru
      by (auto simp: c inv_A_iff)
  qed
  moreover have "(\<Sum>x \<in> set (lru_list_A c) - {k}. entry_size_A ?c x)
      = (\<Sum>x \<in> set (lru_list_A c) - {k}. entry_size_A c x)"
    by (rule sum.cong) (auto simp: c entry_size_A_def)
  then have "(\<Sum>x \<in> set (lru_list_A ?c). entry_size_A ?c x)
      = (\<Sum>x \<in> set (lru_list_A c). entry_size_A c x) - size_A t"
    unfolding lru using assms(2) t by (simp add: sum_diff1 entry_size_A_def)
  moreover have "current_size_A ?c = current_size_A c - size_A t" by (simp add: c)
  ultimately show ?thesis using assms(1) by (simp add: inv_A_iff)
qed

lemma inv_touch_A:
  assumes "inv_A c" "touch_A k now c = Inr c1"
  shows "inv_A c1"
proof -
  from assms(2) obtain t where t: "loading_values_A c k = Some t" "ready_A t"
    and c1: "c1 = c\<lparr>loading_values_A := (loading_values_A c)(k \<mapsto> t\<lparr>last_read_A := now\<rparr>),
                      lru_list_A := k # remove1 k (lru_list_A c)\<rparr>"
    by (auto simp: touch_A_def split: option.splits if_splits)
  have k: "k \<in> set (lru_list_A c)" using assms(1) t by (auto simp: inv_A_iff shape_A_member)
  have d: "distinct (lru_list_A c)" using assms by (simp add: inv_A_iff shape_A_def)
  have lru: "set (lru_list_A c1) = set (lru_list_A c)" using k d by (auto simp: c1)
  have "shape_A c1"
    unfolding shape_A_def set_find_A_Some
  proof (intro conjI allI)
    show "distinct (lru_list_A c1)" using d by (simp add: c1)
  next
    fix k'
    show "k' \<in> set (lru_list_A c1) \<longleftrightarrow> (\<exists>t. loading_values_A c1 k' = Some t \<and> ready_A t)"
      using shape_A_member [of c k'] assms(1) t k unfolding lru
      by (auto simp: c1 inv_A_iff)
  qed
  moreover have "(\<Sum>x \<in> set (lru_list_A c). entry_size_A c1 x)
      = (\<Sum>x \<in> set (lru_list_A c). entry_size_A c x)"
    by (rule sum.cong) (use t in \<open>auto simp: c1 entry_size_A_def\<close>)
  moreover have "current_size_A c1 = current_size_A c" by (simp add: c1)
  ultimately show ?thesis using assms(1) unfolding inv_A_iff lru by simp
qed

lemma inv_value_A:
  "inv_A c \<Longrightarrow> value_A k now c = Inr (v, c1) \<Longrightarrow> inv_A c1"
  by (auto simp: value_A_def split: sum.splits option.splits dest: inv_touch_A)

lemma inv_assign_A:
  assumes "inv_A c" "assign_A k v now c = Inr c1"
  shows "inv_A c1"
proof -
  from assms(2) obtain t where t: "loading_values_A c k = Some t" "ready_A t"
    and c1: "c1 = c\<lparr>loading_values_A := (loading_values_A c)
                        (k \<mapsto> t\<lparr>val_A := v, loaded_A := now, size_A := EntrySize_A c v\<rparr>),
                      current_size_A := current_size_A c - size_A t + EntrySize_A c v\<rparr>"
    by (auto simp: assign_A_def Let_def split: option.splits if_splits)
  have k: "k \<in> set (lru_list_A c)" using assms(1) t by (auto simp: inv_A_iff shape_A_member)
  have "shape_A c1"
    unfolding shape_A_def set_find_A_Some
  proof (intro conjI allI)
    show "distinct (lru_list_A c1)" using assms(1) by (simp add: c1 inv_A_iff shape_A_def)
  next
    fix k'
    show "k' \<in> set (lru_list_A c1) \<longleftrightarrow> (\<exists>t. loading_values_A c1 k' = Some t \<and> ready_A t)"
      using shape_A_member [of c k'] assms(1) t k
      by (auto simp: c1 inv_A_iff)
  qed
  moreover have "(\<Sum>x \<in> set (lru_list_A c). entry_size_A c1 x)
      = entry_size_A c1 k + (\<Sum>x \<in> set (lru_list_A c) - {k}. entry_size_A c1 x)"
    using k by (simp add: sum.remove)
  moreover have "(\<Sum>x \<in> set (lru_list_A c) - {k}. entry_size_A c1 x)
      = (\<Sum>x \<in> set (lru_list_A c) - {k}. entry_size_A c x)"
    by (rule sum.cong) (auto simp: c1 entry_size_A_def)
  moreover have "(\<Sum>x \<in> set (lru_list_A c) - {k}. entry_size_A c x)
      = (\<Sum>x \<in> set (lru_list_A c). entry_size_A c x) - size_A t"
    using k t by (simp add: sum_diff1 entry_size_A_def)
  moreover have "entry_size_A c1 k = EntrySize_A c v" by (simp add: c1 entry_size_A_def)
  moreover have "lru_list_A c1 = lru_list_A c" by (simp add: c1)
  moreover have "current_size_A c1 = current_size_A c - size_A t + EntrySize_A c v"
    by (simp add: c1)
  ultimately show ?thesis using assms(1) by (simp add: inv_A_iff)
qed

lemma inv_lv_unanchored_A:
  assumes "inv_A c" "\<And>t. loading_values_A c k = Some t \<Longrightarrow> \<not> ready_A t"
    "\<And>t. u = Some t \<Longrightarrow> \<not> ready_A t"
  shows "inv_A (c\<lparr>loading_values_A := (loading_values_A c)(k := u)\<rparr>)" (is "inv_A ?c")
proof -
  have k: "k \<notin> set (lru_list_A c)"
    using assms(1,2) by (auto simp: inv_A_iff shape_A_member)
  have "shape_A ?c"
    unfolding shape_A_def set_find_A_Some
  proof (intro conjI allI)
    show "distinct (lru_list_A ?c)" using assms(1) by (simp add: inv_A_iff shape_A_def)
  next
    fix k'
    show "k' \<in> set (lru_list_A ?c) \<longleftrightarrow> (\<exists>t. loading_values_A ?c k' = Some t \<and> ready_A t)"
      using shape_A_member [of c k'] assms k
      by (auto simp: inv_A_iff)
  qed
  moreover have "(\<Sum>x \<in> set (lru_list_A c). entry_size_A ?c x)
      = (\<Sum>x \<in> set (lru_list_A c). entry_size_A c x)"
    by (rule sum.cong) (use k in \<open>auto simp: entry_size_A_def\<close>)
  ultimately show ?thesis using assms(1) by (simp add: inv_A_iff)
qed

lemma inv_get_or_load_A:
  "inv_A c \<Longrightarrow> get_or_load_A k lr now c = Inr c1 \<Longrightarrow> inv_A c1"
  using inv_lv_unanchored_A [of c k "Some (timestamped_val_A (EntrySize_A c) (projr lr) now)"]
  by (auto simp: get_or_load_A_def find_A_def timestamped_val_A_def
      split: option.splits sum.splits)

lemma inv_entry_ptr_release_A: "inv_A c \<Longrightarrow> inv_A (entry_ptr_release_A k c)"
  using inv_lv_unanchored_A [of c k None]
  by (auto simp: entry_ptr_release_A_def split: option.splits)


lemma inv_lru_entry_value_A:
  assumes "inv_A c" "loading_values_A c k = Some t" "\<not> ready_A t"
    "value_A k now (lru_entry_A k c) = Inr (v, c1)"
  shows "inv_A c1"
proof -
  have k: "k \<notin> set (lru_list_A c)"
    using assms(1-3) by (auto simp: inv_A_iff shape_A_member)
  have c1: "c1 = c\<lparr>loading_values_A := (loading_values_A c)
                       (k \<mapsto> t\<lparr>ready_A := True, last_read_A := now\<rparr>),
                    current_size_A := current_size_A c + size_A t,
                    lru_list_A := k # lru_list_A c\<rparr>"
    using assms(2-4) k
    by (auto simp: value_A_def touch_A_def lru_entry_A_def remove1_idem)
  have "shape_A c1"
    unfolding shape_A_def set_find_A_Some
  proof (intro conjI allI)
    show "distinct (lru_list_A c1)" using assms(1) k by (simp add: c1 inv_A_iff shape_A_def)
  next
    fix k'
    show "k' \<in> set (lru_list_A c1) \<longleftrightarrow> (\<exists>t. loading_values_A c1 k' = Some t \<and> ready_A t)"
      using shape_A_member [of c k'] assms(1) k
      by (auto simp: c1 inv_A_iff)
  qed
  moreover have "(\<Sum>x \<in> set (lru_list_A c). entry_size_A c1 x)
      = (\<Sum>x \<in> set (lru_list_A c). entry_size_A c x)"
    by (rule sum.cong) (use k in \<open>auto simp: c1 entry_size_A_def\<close>)
  then have "(\<Sum>x \<in> set (lru_list_A c1). entry_size_A c1 x)
      = size_A t + (\<Sum>x \<in> set (lru_list_A c). entry_size_A c x)"
    using k by (simp add: c1 entry_size_A_def)
  moreover have "current_size_A c1 = current_size_A c + size_A t" by (simp add: c1)
  ultimately show ?thesis using assms(1) by (simp add: inv_A_iff)
qed

lemma inv_get_then_A:
  assumes "inv_A c" "get_then_A k now c = (r, c1)" "r \<noteq> Inl dangling_reference"
    "r \<noteq> Inl assertion_failed"
  shows "inv_A c1"
proof (cases "loading_values_A c k")
  case None
  then show ?thesis using assms by (simp add: get_then_A_def)
next
  case (Some t)
  show ?thesis
  proof (cases "ready_A t")
    case True
    then show ?thesis
      using assms Some inv_value_A [OF assms(1), of k now]
      by (auto simp: get_then_A_def split: sum.splits)
  next
    case False
    show ?thesis
    proof (cases "max_size_A c < size_A t")
      case True
      then show ?thesis
        using assms(1,2) Some False inv_entry_ptr_release_A [OF assms(1), of k]
        by (auto simp: get_then_A_def)
    next
      case nb: False
      show ?thesis
      proof (cases "value_A k now (lru_entry_A k c)")
        case (Inl e)
        then have "r = Inl e"
          using assms(2) Some False nb by (simp add: get_then_A_def)
        moreover have "e = dangling_reference \<or> e = assertion_failed"
          using Inl by (auto simp: value_A_def touch_A_def split: option.splits if_splits sum.splits)
        ultimately show ?thesis using assms(3,4) by auto
      next
        case (Inr p)
        then have "c1 = snd p"
          using assms(2) Some False nb by (auto simp: get_then_A_def split: prod.splits)
        then show ?thesis
          using inv_lru_entry_value_A [OF assms(1) Some False, of now "fst p" "snd p"] Inr
          by simp
      qed
    qed
  qed
qed

lemma inv_remove_and_dispose_if_A:
  "inv_A c \<Longrightarrow> distinct ks \<Longrightarrow> set ks \<subseteq> set (lru_list_A c)
     \<Longrightarrow> inv_A (remove_and_dispose_if_A P ks c)"
proof (induction ks arbitrary: c)
  case Nil
  then show ?case by simp
next
  case (Cons k ks)
  show ?case
  proof (cases "\<exists>t. loading_values_A c k = Some t \<and> P t")
    case False
    then have "remove_and_dispose_if_A P (k # ks) c = remove_and_dispose_if_A P ks c"
      by (auto split: option.splits)
    then show ?thesis using Cons by simp
  next
    case True
    then have eq: "remove_and_dispose_if_A P (k # ks) c
        = remove_and_dispose_if_A P ks (destroy_ts_value_A k c)"
      by auto
    from True obtain t where t: "loading_values_A c k = Some t" by blast
    have i: "inv_A (destroy_ts_value_A k c)"
      using inv_destroy_A [OF Cons.prems(1)] Cons.prems(3) by simp
    have d: "distinct (lru_list_A c)" using Cons.prems(1) by (simp add: inv_A_iff shape_A_def)
    have "set ks \<subseteq> set (lru_list_A (destroy_ts_value_A k c))"
      using Cons.prems(2,3) d by (auto simp: destroy_ts_value_A_anchored [OF t])
    then show ?thesis
      unfolding eq using Cons.IH [OF i] Cons.prems(2) by simp
  qed
qed

lemma inv_drop_expired_A: "inv_A c \<Longrightarrow> inv_A (drop_expired_A now c)"
  unfolding drop_expired_A_def
  by (rule inv_remove_and_dispose_if_A) (auto simp: inv_A_iff shape_A_def)

lemma inv_shrink_A: "inv_A c \<Longrightarrow> shrink_A c = Some c1 \<Longrightarrow> inv_A c1"
proof (induction c rule: shrink_A.induct)
  case (1 c)
  show ?case
  proof (cases "max_size_A c < current_size_A c")
    case False
    then have "shrink_A c = Some c" by (subst shrink_A.simps) simp
    then show ?thesis using "1.prems" by simp
  next
    case True
    show ?thesis
    proof (cases "lru_list_A c = [] \<or> loading_values_A c (last (lru_list_A c)) = None")
      case True
      with \<open>max_size_A c < current_size_A c\<close> have "shrink_A c = None"
        by (subst shrink_A.simps) simp
      then show ?thesis using "1.prems" by simp
    next
      case False
      with \<open>max_size_A c < current_size_A c\<close>
      have "shrink_A c = shrink_A (destroy_ts_value_A (last (lru_list_A c)) c)"
        by (subst shrink_A.simps) auto
      then have "shrink_A (destroy_ts_value_A (last (lru_list_A c)) c) = Some c1"
        using "1.prems"(2) by simp
      moreover have "inv_A (destroy_ts_value_A (last (lru_list_A c)) c)"
        using inv_destroy_A [OF "1.prems"(1)] False by simp
      ultimately show ?thesis
        using "1.IH" [OF \<open>max_size_A c < current_size_A c\<close> False] by simp
    qed
  qed
qed

lemma inv_on_timer_A: "inv_A c \<Longrightarrow> on_timer_A now clock_at c = Some (ks, c1) \<Longrightarrow> inv_A c1"
  using inv_shrink_A [OF inv_drop_expired_A, of c now c1]
  by (auto simp: on_timer_A_def periodic_rehash_A_def Let_def split: option.splits)

lemma inv_fold_destroy_A:
  "inv_A c \<Longrightarrow> distinct ks \<Longrightarrow> set ks \<subseteq> set (lru_list_A c)
     \<Longrightarrow> inv_A (fold destroy_ts_value_A ks c)"
proof (induction ks arbitrary: c)
  case Nil
  then show ?case by simp
next
  case (Cons k ks)
  have i: "inv_A (destroy_ts_value_A k c)"
    using inv_destroy_A [OF Cons.prems(1)] Cons.prems(3) by simp
  from Cons.prems obtain t where t: "loading_values_A c k = Some t"
    by (auto simp: inv_A_iff shape_A_member)
  have d: "distinct (lru_list_A c)" using Cons.prems(1) by (simp add: inv_A_iff shape_A_def)
  have "set ks \<subseteq> set (lru_list_A (destroy_ts_value_A k c))"
    using Cons.prems(2,3) d by (auto simp: destroy_ts_value_A_anchored [OF t])
  then show ?case using Cons.IH [OF i] Cons.prems(2) by simp
qed

lemma inv_destructor_A: "inv_A c \<Longrightarrow> inv_A (destructor_A c)"
  unfolding destructor_A_def
  by (rule inv_fold_destroy_A) (auto simp: inv_A_iff shape_A_def)

lemma inv_reload_then_A:
  "inv_A c \<Longrightarrow> reload_then_A key f now c = Inr c1 \<Longrightarrow> inv_A c1"
  by (auto simp: reload_then_A_def split: option.splits sum.splits dest: inv_assign_A)

lemma inv_rearm_A: "inv_A c \<Longrightarrow> inv_A (rearm_A now c)"
  by (simp add: inv_A_def shape_A_def resident_size_A_def rearm_A_def set_find_A_def find_A_def)

lemma inv_step_A:
  assumes "inv_A c" "step_A x c = Some c1"
  shows "inv_A c1"
proof (cases x)
  case (Get_A k)
  then show ?thesis using assms by (auto simp: get_A_def)
next
  case (Get_or_load_A k lr now)
  then show ?thesis using assms inv_get_or_load_A [of c k lr now c1]
    by (auto split: sum.splits)
next
  case (Get_then_A k now)
  obtain r c2 where g: "get_then_A k now c = (r, c2)" by (cases "get_then_A k now c")
  then have "c2 = c1" "r \<noteq> Inl dangling_reference" "r \<noteq> Inl assertion_failed"
    using assms(2) Get_then_A by (auto split: sum.splits if_splits)
  then show ?thesis using inv_get_then_A [OF assms(1) g] by simp
next
  case (On_timer_A now clock_at)
  then show ?thesis using assms inv_on_timer_A [of c now clock_at _ c1] by auto
next
  case (Rearm_A now)
  then show ?thesis using assms by (auto simp: inv_rearm_A)
next
  case (Reload_then_A key f now)
  then show ?thesis using assms inv_reload_then_A [of c key f now c1]
    by (auto split: sum.splits)
next
  case Destructor_A
  then show ?thesis using assms by (auto simp: inv_destructor_A)
qed

lemma inv_run_A: "inv_A c \<Longrightarrow> run_A xs c = Some c1 \<Longrightarrow> inv_A c1"
  by (induction xs arbitrary: c) (auto split: option.splits dest: inv_step_A)

lemma inv_loading_cache_A:
  "loading_cache_A esz m e r t = Inr c \<Longrightarrow> inv_A c"
  by (auto simp: loading_cache_A_def Let_def inv_A_def shape_A_def resident_size_A_def
      set_find_A_def find_A_def split: if_splits)

section \<open>What the sweeps remove and what they leave\<close>

lemma heap_erase_it_B:
  "heap_B (erase_it_B a c) = (heap_B c)(a := None)"
  by (auto simp: erase_it_B_def destroy_ts_value_B_def split: option.splits)

lemma lru_erase_it_B:
  "heap_B c a \<noteq> None \<Longrightarrow> lru_list_B (erase_it_B a c) = remove1 a (lru_list_B c)"
  by (auto simp: erase_it_B_def destroy_ts_value_B_def split: option.splits)

lemma config_erase_it_B:
  "expiry_B (erase_it_B a c) = expiry_B c \<and> refresh_B (erase_it_B a c) = refresh_B c
   \<and> ReloadEnabled_B (erase_it_B a c) = ReloadEnabled_B c
   \<and> max_size_B (erase_it_B a c) = max_size_B c"
  by (auto simp: erase_it_B_def destroy_ts_value_B_def split: option.splits)

lemma config_remove_and_dispose_if_B:
  "expiry_B (remove_and_dispose_if_B P as c) = expiry_B c
   \<and> refresh_B (remove_and_dispose_if_B P as c) = refresh_B c
   \<and> ReloadEnabled_B (remove_and_dispose_if_B P as c) = ReloadEnabled_B c
   \<and> max_size_B (remove_and_dispose_if_B P as c) = max_size_B c"
  by (induction as arbitrary: c) (auto simp: config_erase_it_B split: option.splits)

lemma config_shrink_B:
  "shrink_B c = Some c1 \<Longrightarrow>
     expiry_B c1 = expiry_B c \<and> refresh_B c1 = refresh_B c
     \<and> ReloadEnabled_B c1 = ReloadEnabled_B c \<and> max_size_B c1 = max_size_B c"
proof (induction c rule: shrink_B.induct)
  case (1 c)
  show ?case
  proof (cases "max_size_B c < current_size_B c")
    case False
    then have "shrink_B c = Some c" by (subst shrink_B.simps) simp
    then show ?thesis using "1.prems" by simp
  next
    case True
    show ?thesis
    proof (cases "lru_list_B c = [] \<or> heap_B c (last (lru_list_B c)) = None")
      case True
      with \<open>max_size_B c < current_size_B c\<close> have "shrink_B c = None"
        by (subst shrink_B.simps) simp
      then show ?thesis using "1.prems" by simp
    next
      case False
      with \<open>max_size_B c < current_size_B c\<close>
      have "shrink_B c = shrink_B (erase_it_B (last (lru_list_B c)) c)"
        by (subst shrink_B.simps) auto
      then have "shrink_B (erase_it_B (last (lru_list_B c)) c) = Some c1"
        using "1.prems" by simp
      then show ?thesis
        using "1.IH" [OF \<open>max_size_B c < current_size_B c\<close> False]
        by (simp add: config_erase_it_B)
    qed
  qed
qed

lemma heap_remove_and_dispose_if_B:
  "heap_B (remove_and_dispose_if_B P as c) a
     = (if a \<in> set as \<and> (\<exists>e. heap_B c a = Some e \<and> P e) then None else heap_B c a)"
proof (induction as arbitrary: c)
  case Nil
  then show ?case by simp
next
  case (Cons x as)
  show ?case
  proof (cases "\<exists>e. heap_B c x = Some e \<and> P e")
    case True
    then have "remove_and_dispose_if_B P (x # as) c
        = remove_and_dispose_if_B P as (erase_it_B x c)"
      by auto
    then show ?thesis
      using True by (auto simp: Cons [of "erase_it_B x c"] heap_erase_it_B)
  next
    case False
    then have "remove_and_dispose_if_B P (x # as) c = remove_and_dispose_if_B P as c"
      by (auto split: option.splits)
    then show ?thesis
      using False by (auto simp: Cons [of c])
  qed
qed

lemma lru_remove_and_dispose_if_B:
  "distinct (lru_list_B c) \<Longrightarrow>
     lru_list_B (remove_and_dispose_if_B P as c)
       = filter (\<lambda>a. \<not> (a \<in> set as \<and> (\<exists>e. heap_B c a = Some e \<and> P e))) (lru_list_B c)"
proof (induction as arbitrary: c)
  case Nil
  then show ?case by simp
next
  case (Cons x as)
  show ?case
  proof (cases "\<exists>e. heap_B c x = Some e \<and> P e")
    case True
    then have eq: "remove_and_dispose_if_B P (x # as) c
        = remove_and_dispose_if_B P as (erase_it_B x c)"
      by auto
    have lru: "lru_list_B (erase_it_B x c) = filter (\<lambda>a. a \<noteq> x) (lru_list_B c)"
      using True Cons.prems
      by (auto simp: lru_erase_it_B distinct_remove1_removeAll removeAll_filter_not_eq
          intro: filter_cong)
    have d: "distinct (lru_list_B (erase_it_B x c))" using Cons.prems by (simp add: lru)
    show ?thesis
      unfolding eq Cons.IH [OF d] lru heap_erase_it_B
      using True by (auto intro!: filter_cong)
  next
    case False
    then have "remove_and_dispose_if_B P (x # as) c = remove_and_dispose_if_B P as c"
      by (auto split: option.splits)
    then show ?thesis
      using False Cons.IH [OF Cons.prems] by (auto intro!: filter_cong)
  qed
qed

lemma drop_expired_B_entry:
  assumes "inv_B c" "a \<in> set (lru_list_B c)"
  shows "\<exists>e. heap_B c a = Some e
     \<and> (if expired_B c now e
        then a \<notin> set (lru_list_B (drop_expired_B now c))
           \<and> a \<notin> set (set_B (drop_expired_B now c))
           \<and> heap_B (drop_expired_B now c) a = None
        else a \<in> set (lru_list_B (drop_expired_B now c))
           \<and> a \<in> set (set_B (drop_expired_B now c))
           \<and> heap_B (drop_expired_B now c) a = Some e)"
proof -
  let ?c = "drop_expired_B now c"
  from assms obtain e where e: "heap_B c a = Some e"
    by (auto simp: inv_B_def shape_B_def)
  have i: "inv_B ?c" using assms(1) by (rule inv_drop_expired_B)
  have h: "heap_B ?c a = (if expired_B c now e then None else Some e)"
    using assms(2) e by (simp add: drop_expired_B_def heap_remove_and_dispose_if_B)
  have m: "a \<in> set (lru_list_B ?c) \<longleftrightarrow> heap_B ?c a \<noteq> None"
    "a \<in> set (set_B ?c) \<longleftrightarrow> heap_B ?c a \<noteq> None"
    using i by (auto simp: inv_B_def shape_B_def)
  show ?thesis using e h m by auto
qed

lemma lru_drop_expired_B:
  assumes "inv_B c"
  shows "lru_list_B (drop_expired_B now c)
     = filter (\<lambda>a. heap_B (drop_expired_B now c) a \<noteq> None) (lru_list_B c)"
proof -
  have d: "distinct (lru_list_B c)" using assms by (simp add: inv_B_def shape_B_def)
  have l: "\<And>a. a \<in> set (lru_list_B c) \<Longrightarrow> heap_B c a \<noteq> None"
    using assms by (auto simp: inv_B_def shape_B_def)
  show ?thesis
    unfolding drop_expired_B_def lru_remove_and_dispose_if_B [OF d]
      heap_remove_and_dispose_if_B
    by (rule filter_cong) (use l in auto)
qed

lemma lv_destroy_A:
  "loading_values_A (destroy_ts_value_A k c) = (loading_values_A c)(k := None)"
  by (auto simp: destroy_ts_value_A_def entry_ptr_release_A_def split: option.splits)

lemma lru_destroy_A:
  "loading_values_A c k \<noteq> None \<Longrightarrow>
     lru_list_A (destroy_ts_value_A k c) = remove1 k (lru_list_A c)"
  by (auto simp: destroy_ts_value_A_def entry_ptr_release_A_def split: option.splits)

lemma config_destroy_A:
  "expiry_A (destroy_ts_value_A k c) = expiry_A c
   \<and> refresh_A (destroy_ts_value_A k c) = refresh_A c
   \<and> max_size_A (destroy_ts_value_A k c) = max_size_A c"
  by (auto simp: destroy_ts_value_A_def entry_ptr_release_A_def split: option.splits)

lemma config_remove_and_dispose_if_A:
  "expiry_A (remove_and_dispose_if_A P ks c) = expiry_A c
   \<and> refresh_A (remove_and_dispose_if_A P ks c) = refresh_A c
   \<and> max_size_A (remove_and_dispose_if_A P ks c) = max_size_A c"
  by (induction ks arbitrary: c) (auto simp: config_destroy_A split: option.splits)

lemma config_shrink_A:
  "shrink_A c = Some c1 \<Longrightarrow>
     expiry_A c1 = expiry_A c \<and> refresh_A c1 = refresh_A c \<and> max_size_A c1 = max_size_A c"
proof (induction c rule: shrink_A.induct)
  case (1 c)
  show ?case
  proof (cases "max_size_A c < current_size_A c")
    case False
    then have "shrink_A c = Some c" by (subst shrink_A.simps) simp
    then show ?thesis using "1.prems" by simp
  next
    case True
    show ?thesis
    proof (cases "lru_list_A c = [] \<or> loading_values_A c (last (lru_list_A c)) = None")
      case True
      with \<open>max_size_A c < current_size_A c\<close> have "shrink_A c = None"
        by (subst shrink_A.simps) simp
      then show ?thesis using "1.prems" by simp
    next
      case False
      with \<open>max_size_A c < current_size_A c\<close>
      have "shrink_A c = shrink_A (destroy_ts_value_A (last (lru_list_A c)) c)"
        by (subst shrink_A.simps) auto
      then have "shrink_A (destroy_ts_value_A (last (lru_list_A c)) c) = Some c1"
        using "1.prems" by simp
      then show ?thesis
        using "1.IH" [OF \<open>max_size_A c < current_size_A c\<close> False]
        by (simp add: config_destroy_A)
    qed
  qed
qed

lemma lv_remove_and_dispose_if_A:
  "loading_values_A (remove_and_dispose_if_A P ks c) k
     = (if k \<in> set ks \<and> (\<exists>t. loading_values_A c k = Some t \<and> P t) then None
        else loading_values_A c k)"
proof (induction ks arbitrary: c)
  case Nil
  then show ?case by simp
next
  case (Cons x ks)
  show ?case
  proof (cases "\<exists>t. loading_values_A c x = Some t \<and> P t")
    case True
    then have "remove_and_dispose_if_A P (x # ks) c
        = remove_and_dispose_if_A P ks (destroy_ts_value_A x c)"
      by auto
    then show ?thesis
      using True by (auto simp: Cons [of "destroy_ts_value_A x c"] lv_destroy_A)
  next
    case False
    then have "remove_and_dispose_if_A P (x # ks) c = remove_and_dispose_if_A P ks c"
      by (auto split: option.splits)
    then show ?thesis
      using False by (auto simp: Cons [of c])
  qed
qed

lemma lru_remove_and_dispose_if_A:
  "distinct (lru_list_A c) \<Longrightarrow>
     lru_list_A (remove_and_dispose_if_A P ks c)
       = filter (\<lambda>k. \<not> (k \<in> set ks \<and> (\<exists>t. loading_values_A c k = Some t \<and> P t)))
           (lru_list_A c)"
proof (induction ks arbitrary: c)
  case Nil
  then show ?case by simp
next
  case (Cons x ks)
  show ?case
  proof (cases "\<exists>t. loading_values_A c x = Some t \<and> P t")
    case True
    then have eq: "remove_and_dispose_if_A P (x # ks) c
        = remove_and_dispose_if_A P ks (destroy_ts_value_A x c)"
      by auto
    have lru: "lru_list_A (destroy_ts_value_A x c) = filter (\<lambda>k. k \<noteq> x) (lru_list_A c)"
      using True Cons.prems
      by (auto simp: lru_destroy_A distinct_remove1_removeAll removeAll_filter_not_eq
          intro: filter_cong)
    have d: "distinct (lru_list_A (destroy_ts_value_A x c))" using Cons.prems by (simp add: lru)
    show ?thesis
      unfolding eq Cons.IH [OF d] lru lv_destroy_A
      using True by (auto intro!: filter_cong)
  next
    case False
    then have "remove_and_dispose_if_A P (x # ks) c = remove_and_dispose_if_A P ks c"
      by (auto split: option.splits)
    then show ?thesis
      using False Cons.IH [OF Cons.prems] by (auto intro!: filter_cong)
  qed
qed

lemma drop_expired_A_entry:
  assumes "inv_A c" "k \<in> set (lru_list_A c)"
  shows "\<exists>t. loading_values_A c k = Some t
     \<and> (if expired_A c now t
        then k \<notin> set (lru_list_A (drop_expired_A now c))
           \<and> set_find_A k (drop_expired_A now c) = None
           \<and> loading_values_A (drop_expired_A now c) k = None
        else k \<in> set (lru_list_A (drop_expired_A now c))
           \<and> loading_values_A (drop_expired_A now c) k = Some t)"
proof -
  let ?c = "drop_expired_A now c"
  from assms obtain t where t: "loading_values_A c k = Some t" "ready_A t"
    by (auto simp: inv_A_iff shape_A_member)
  have i: "inv_A ?c" using assms(1) by (rule inv_drop_expired_A)
  have h: "loading_values_A ?c k = (if expired_A c now t then None else Some t)"
    using assms(2) t by (simp add: drop_expired_A_def lv_remove_and_dispose_if_A)
  have m: "k \<in> set (lru_list_A ?c) \<longleftrightarrow> (\<exists>t. loading_values_A ?c k = Some t \<and> ready_A t)"
    using i by (simp add: inv_A_iff shape_A_member)
  have f: "loading_values_A ?c k = None \<Longrightarrow> set_find_A k ?c = None"
    by (simp add: set_find_A_def find_A_def)
  show ?thesis using t h m f by auto
qed

lemma lru_drop_expired_A:
  assumes "inv_A c"
  shows "lru_list_A (drop_expired_A now c)
     = filter (\<lambda>k. loading_values_A (drop_expired_A now c) k \<noteq> None) (lru_list_A c)"
proof -
  have d: "distinct (lru_list_A c)" using assms by (simp add: inv_A_iff shape_A_def)
  have l: "\<And>k. k \<in> set (lru_list_A c) \<Longrightarrow> loading_values_A c k \<noteq> None"
    using assms by (auto simp: inv_A_iff shape_A_member)
  show ?thesis
    unfolding drop_expired_A_def lru_remove_and_dispose_if_A [OF d]
      lv_remove_and_dispose_if_A
    by (rule filter_cong) (use l in auto)
qed

section \<open>The example caches, evaluated\<close>

lemma example_B_constructed:
  "loading_cache_reload_B example_size 4 100 50 0 = Inr example_B"
  by (simp add: example_B_def loading_cache_reload_B_def caching_enabled_B_def members_B_def)

lemma example_A_constructed:
  "loading_cache_A example_size 4 100 50 0 = Inr example_A"
  by (simp add: example_A_def loading_cache_A_def caching_enabled_A_def)

lemma example_B1_run: "run_B [Get_ptr_then_B 1 ''a'' 6 6] example_B = Some example_B1"
  by (simp add: example_B1_def get_ptr_then_B_def find_B_def example_B_def
      loading_cache_reload_B_def caching_enabled_B_def members_B_def Let_def
      timestamped_val_B_def rehash_before_insert_B_def pointer_B_def)

lemma example_A1_run:
  "run_A [Get_or_load_A 1 (Inr ''a'') 6, Get_then_A 1 6] example_A = Some example_A1"
  by (simp add: example_A1_def example_A_def loading_cache_A_def caching_enabled_A_def
      get_or_load_A_def find_A_def get_then_A_def timestamped_val_A_def example_size_def
      lru_entry_A_def value_A_def touch_A_def)

lemma example_B1_eq:
  "example_B1 = example_B\<lparr>heap_B := [0 \<mapsto> \<lparr>key_B = 1, val_B = ''a'', loaded_B = 6,
        last_read_B = 6, size_B = 1\<rparr>], set_B := [0], lru_list_B := [0],
      current_size_B := 1, next_B := 1\<rparr>"
  by (simp add: example_B1_def get_ptr_then_B_def find_B_def example_B_def
      loading_cache_reload_B_def caching_enabled_B_def members_B_def Let_def
      timestamped_val_B_def rehash_before_insert_B_def pointer_B_def touch_B_def
      example_size_def)

lemma example_A1_eq:
  "example_A1 = example_A\<lparr>loading_values_A := [1 \<mapsto> \<lparr>val_A = ''a'', loaded_A = 6,
        last_read_A = 6, ready_A = True, size_A = 1\<rparr>],
      current_size_A := 1, lru_list_A := [1]\<rparr>"
  by (simp add: example_A1_def example_A_def loading_cache_A_def caching_enabled_A_def
      get_or_load_A_def find_A_def get_then_A_def timestamped_val_A_def example_size_def
      lru_entry_A_def value_A_def touch_A_def)

lemma example_B1_fields:
  "lru_list_B example_B1 = [0]" "set_B example_B1 = [0]" "expiry_B example_B1 = 100"
  "refresh_B example_B1 = Some 50" "ReloadEnabled_B example_B1" "max_size_B example_B1 = 4"
  "current_size_B example_B1 = 1"
  "heap_B example_B1 0 = Some \<lparr>key_B = 1, val_B = ''a'', loaded_B = 6, last_read_B = 6,
      size_B = 1\<rparr>"
  by (simp_all add: example_B1_eq example_B_def loading_cache_reload_B_def
      caching_enabled_B_def members_B_def)

lemma example_A1_fields:
  "lru_list_A example_A1 = [1]" "expiry_A example_A1 = 100" "refresh_A example_A1 = 50"
  "max_size_A example_A1 = 4" "current_size_A example_A1 = 1"
  "loading_values_A example_A1 1 = Some \<lparr>val_A = ''a'', loaded_A = 6, last_read_A = 6,
      ready_A = True, size_A = 1\<rparr>"
  "loading_values_A example_A1 (Suc 0) = Some \<lparr>val_A = ''a'', loaded_A = 6,
      last_read_A = 6, ready_A = True, size_A = 1\<rparr>"
  by (simp_all add: example_A1_eq example_A_def loading_cache_A_def caching_enabled_A_def)

lemma example_B1_on_timer_with_reload:
  "on_timer_with_reload_B 60 60 example_B1 = Some ([0], example_B1)"
proof -
  have d: "drop_expired_B 60 example_B1 = example_B1"
    by (simp add: drop_expired_B_def example_B1_fields expired_B_def)
  have s: "shrink_B example_B1 = Some example_B1"
    by (subst shrink_B.simps) (simp add: example_B1_fields)
  show ?thesis
    unfolding on_timer_with_reload_B_def on_timer_B_def d s
    by (simp add: periodic_rehash_B_def needs_reload_B_def example_B1_fields chrono_plus_def)
qed

lemma example_A1_on_timer:
  "on_timer_A 56 (\<lambda>k. 57) example_A1 = Some ([1], example_A1)"
proof -
  have d: "drop_expired_A 56 example_A1 = example_A1"
    by (simp add: drop_expired_A_def example_A1_fields expired_A_def)
  have s: "shrink_A example_A1 = Some example_A1"
    by (subst shrink_A.simps) (simp add: example_A1_fields)
  show ?thesis
    unfolding on_timer_A_def d s
    by (simp add: periodic_rehash_A_def needs_reload_A_def example_A1_fields chrono_plus_def)
qed

lemma example_B2_eq:
  "example_B2 = \<lparr>heap_B = [0 \<mapsto> \<lparr>key_B = 1, val_B = ''a'', loaded_B = 6, last_read_B = 6,
        size_B = 1\<rparr>], set_B = [0], lru_list_B = [0], current_size_B = 1, max_size_B = 4,
      expiry_B = 100, refresh_B = Some 9223372036854775807, timer_period_B = Some 100,
      timer_B = Some 100, next_B = 1, ReloadEnabled_B = True, EntrySize_B = example_size\<rparr>"
  by (simp add: example_B2_def get_ptr_then_B_def find_B_def
      loading_cache_reload_B_def caching_enabled_B_def members_B_def Let_def
      timestamped_val_B_def rehash_before_insert_B_def pointer_B_def touch_B_def
      example_size_def chrono_plus_def)

lemma example_A2_eq:
  "example_A2 = \<lparr>loading_values_A = [1 \<mapsto> \<lparr>val_A = ''a'', loaded_A = 6,
        last_read_A = 6, ready_A = True, size_A = 1\<rparr>], lru_list_A = [1],
      current_size_A = 1, max_size_A = 4, expiry_A = 100,
      refresh_A = 9223372036854775807, timer_period_A = Some 100, timer_A = Some 100,
      EntrySize_A = example_size\<rparr>"
  by (simp add: example_A2_def loading_cache_A_def caching_enabled_A_def
      get_or_load_A_def find_A_def get_then_A_def timestamped_val_A_def example_size_def
      lru_entry_A_def value_A_def touch_A_def chrono_plus_def)

lemma example_B2_fields:
  "lru_list_B example_B2 = [0]" "set_B example_B2 = [0]"
  "refresh_B example_B2 = Some 9223372036854775807" "ReloadEnabled_B example_B2"
  "heap_B example_B2 0 = Some \<lparr>key_B = 1, val_B = ''a'', loaded_B = 6, last_read_B = 6,
      size_B = 1\<rparr>"
  by (simp_all add: example_B2_eq)

lemma example_A2_fields:
  "lru_list_A example_A2 = [1]" "refresh_A example_A2 = 9223372036854775807"
  "loading_values_A example_A2 1 = Some \<lparr>val_A = ''a'', loaded_A = 6, last_read_A = 6,
      ready_A = True, size_A = 1\<rparr>"
  "loading_values_A example_A2 (Suc 0) = Some \<lparr>val_A = ''a'', loaded_A = 6,
      last_read_A = 6, ready_A = True, size_A = 1\<rparr>"
  by (simp_all add: example_A2_eq)

lemma example_B2_on_timer_with_reload:
  "on_timer_with_reload_B 60 60 example_B2 = Some ([0], example_B2)"
proof -
  have d: "drop_expired_B 60 example_B2 = example_B2"
    by (simp add: drop_expired_B_def example_B2_eq expired_B_def)
  have s: "shrink_B example_B2 = Some example_B2"
    by (subst shrink_B.simps) (simp add: example_B2_eq)
  show ?thesis
    unfolding on_timer_with_reload_B_def on_timer_B_def d s
    by (simp add: periodic_rehash_B_def needs_reload_B_def example_B2_eq chrono_plus_def)
qed

lemma example_A2_on_timer:
  "on_timer_A 60 (\<lambda>k. 60) example_A2 = Some ([1], example_A2)"
proof -
  have d: "drop_expired_A 60 example_A2 = example_A2"
    by (simp add: drop_expired_A_def example_A2_eq expired_A_def)
  have s: "shrink_A example_A2 = Some example_A2"
    by (subst shrink_A.simps) (simp add: example_A2_eq)
  show ?thesis
    unfolding on_timer_A_def d s
    by (simp add: periodic_rehash_A_def needs_reload_A_def example_A2_eq chrono_plus_def)
qed

lemma run_B_append:
  "run_B (xs @ ys) c = (case run_B xs c of None \<Rightarrow> None | Some c1 \<Rightarrow> run_B ys c1)"
  by (induction xs arbitrary: c) (auto split: option.splits)

lemma erased_reload_run_B_defined: "run_B erased_reload_run_B example_B \<noteq> None"
  by code_simp

lemma erased_reload_run_B_empty:
  "set_B (the (run_B erased_reload_run_B example_B)) = []"
  "lru_list_B (the (run_B erased_reload_run_B example_B)) = []"
  "current_size_B (the (run_B erased_reload_run_B example_B)) = 0"
  "heap_B (the (run_B erased_reload_run_B example_B)) 0 = None"
  by code_simp+

section \<open>Configuration validity\<close>

text \<open>
  Claim C5. With a non-zero expiry, each constructor with a loader (variant A, and
  variant B in reload mode) throws exactly when \<open>max_size = 0\<close> or \<open>refresh = 0\<close>, the
  constructor of variant B without a loader throws exactly when \<open>max_size = 0\<close>, and
  what is thrown is the configuration exception. With a zero expiry every constructor
  succeeds, whatever \<open>max_size\<close> and \<open>refresh\<close> are.
\<close>

theorem constructor_configuration:
  fixes esz :: "'v \<Rightarrow> 64 word"
  shows "(expiry \<noteq> 0 \<longrightarrow>
            ((loading_cache_A esz max_size expiry refresh now
                 :: exn + ('k, 'v) loading_cache_A) = Inl configuration_exception
               \<longleftrightarrow> max_size = 0 \<or> refresh = 0)
          \<and> ((loading_cache_reload_B esz max_size expiry refresh now
                 :: exn + ('k, 'v) loading_cache_B) = Inl configuration_exception
               \<longleftrightarrow> max_size = 0 \<or> refresh = 0)
          \<and> ((loading_cache_B esz max_size expiry now
                 :: exn + ('k, 'v) loading_cache_B) = Inl configuration_exception
               \<longleftrightarrow> max_size = 0)
          \<and> (isl (loading_cache_A esz max_size expiry refresh now
                 :: exn + ('k, 'v) loading_cache_A) \<longleftrightarrow> max_size = 0 \<or> refresh = 0)
          \<and> (isl (loading_cache_reload_B esz max_size expiry refresh now
                 :: exn + ('k, 'v) loading_cache_B) \<longleftrightarrow> max_size = 0 \<or> refresh = 0)
          \<and> (isl (loading_cache_B esz max_size expiry now
                 :: exn + ('k, 'v) loading_cache_B) \<longleftrightarrow> max_size = 0))
       \<and> (expiry = 0 \<longrightarrow>
            \<not> isl (loading_cache_A esz max_size expiry refresh now
                 :: exn + ('k, 'v) loading_cache_A)
          \<and> \<not> isl (loading_cache_reload_B esz max_size expiry refresh now
                 :: exn + ('k, 'v) loading_cache_B)
          \<and> \<not> isl (loading_cache_B esz max_size expiry now
                 :: exn + ('k, 'v) loading_cache_B))"
  by (simp add: loading_cache_A_def loading_cache_reload_B_def loading_cache_B_def
      caching_enabled_A_def caching_enabled_B_def members_B_def Let_def)

theorem constructor_configuration_witness:
  "(1::int) \<noteq> 0
   \<and> (loading_cache_A (\<lambda>v::nat. 1) 0 1 5 0 :: exn + (nat, nat) loading_cache_A)
       = Inl configuration_exception
   \<and> (loading_cache_reload_B (\<lambda>v::nat. 1) 3 1 0 0 :: exn + (nat, nat) loading_cache_B)
       = Inl configuration_exception
   \<and> \<not> isl (loading_cache_B (\<lambda>v::nat. 1) 3 1 0 :: exn + (nat, nat) loading_cache_B)
   \<and> (0::int) = 0
   \<and> \<not> isl (loading_cache_reload_B (\<lambda>v::nat. 1) 0 0 0 0 :: exn + (nat, nat) loading_cache_B)"
  using constructor_configuration [where expiry = 1 and max_size = 0 and refresh = 5
      and now = 0 and esz = "\<lambda>v::nat. 1", where ?'k = nat]
    constructor_configuration [where expiry = 1 and max_size = 3 and refresh = 0
      and now = 0 and esz = "\<lambda>v::nat. 1", where ?'k = nat]
    constructor_configuration [where expiry = 0 and max_size = 0 and refresh = 0
      and now = 0 and esz = "\<lambda>v::nat. 1", where ?'k = nat]
  by simp

section \<open>Entries that are too big\<close>

text \<open>
  Claim C1, as stated, against variant B. The claim has every \<^verbatim>\<open>get\<close>/\<^verbatim>\<open>get_ptr\<close> call
  that loads a value bigger than \<open>max_size\<close> fail with \<^verbatim>\<open>entry_is_too_big\<close> and install
  nothing. In the example cache of variant B (\<open>max_size = 4\<close>) the key 2 is absent, so
  \<^verbatim>\<open>get_ptr\<close> asks the registry; when the load resolves to \<^verbatim>\<open>"hello"\<close>, of size 5, the
  continuation does not fail: it hands the value back, and the entry is in the set and
  in the LRU list and the cache size has gone from 0 to 5.
\<close>

theorem get_ptr_installs_too_big_counterexample:
  "max_size_B example_B < EntrySize_B example_B ''hello''
   \<and> get_ptr_B 2 7 example_B = Inr (get_or_load_future 2, example_B)
   \<and> get_ptr_then_B 2 ''hello'' 8 8 example_B \<noteq> Inl entry_is_too_big
   \<and> fst (projr (get_ptr_then_B 2 ''hello'' 8 8 example_B)) = ''hello''
   \<and> set_B (snd (projr (get_ptr_then_B 2 ''hello'' 8 8 example_B))) = [0]
   \<and> lru_list_B (snd (projr (get_ptr_then_B 2 ''hello'' 8 8 example_B))) = [0]
   \<and> current_size_B (snd (projr (get_ptr_then_B 2 ''hello'' 8 8 example_B))) = 5
   \<and> current_size_B example_B = 0"
  by (simp add: get_ptr_B_def get_ptr_then_B_def find_B_def example_B_def
      loading_cache_reload_B_def caching_enabled_B_def members_B_def Let_def
      timestamped_val_B_def rehash_before_insert_B_def pointer_B_def touch_B_def
      example_size_def)

text \<open>
  Claim C1, amended. In variant A, a \<^verbatim>\<open>get\<close> whose load brings a value bigger than
  \<open>max_size\<close> fails with \<^verbatim>\<open>entry_is_too_big\<close>: when the key was not registered before
  the load, the cache after the failed call is the cache before it; and whatever
  happened between the load and the continuation, the continuation that finds the slot
  unanchored and too big fails and leaves the LRU list, the cache size and every
  lookup of an anchored slot as they were. In variant B there is no such check:
  the continuation of \<^verbatim>\<open>get_ptr\<close> that finds the key absent installs the value,
  whatever its size, and adds its size to the cache size.
\<close>

theorem get_rejects_too_big:
  "(loading_values_A c k = None \<and> max_size_A c < EntrySize_A c v \<longrightarrow>
      (\<exists>c1. get_or_load_A k (Inr v) t c = Inr c1
            \<and> get_then_A k now c1 = (Inl entry_is_too_big, c)))
   \<and> (loading_values_A c k = Some ts_val \<and> \<not> ready_A ts_val \<and> max_size_A c < size_A ts_val \<longrightarrow>
      fst (get_then_A k now c) = Inl entry_is_too_big
      \<and> lru_list_A (snd (get_then_A k now c)) = lru_list_A c
      \<and> current_size_A (snd (get_then_A k now c)) = current_size_A c
      \<and> (\<forall>k'. set_find_A k' (snd (get_then_A k now c)) = set_find_A k' c))
   \<and> (find_B k cb = None \<longrightarrow>
      (\<exists>cb1. get_ptr_then_B k v now_ctor now cb = Inr (v, cb1)
         \<and> set_B cb1 = next_B cb # set_B cb
         \<and> heap_B cb1 (next_B cb) = Some \<lparr>key_B = k, val_B = v, loaded_B = now_ctor,
               last_read_B = now, size_B = EntrySize_B cb v\<rparr>
         \<and> current_size_B cb1 = current_size_B cb + EntrySize_B cb v))"
proof (intro conjI impI)
  assume a: "loading_values_A c k = None \<and> max_size_A c < EntrySize_A c v"
  let ?c1 = "c\<lparr>loading_values_A :=
               (loading_values_A c)(k \<mapsto> timestamped_val_A (EntrySize_A c) v t)\<rparr>"
  have "get_or_load_A k (Inr v) t c = Inr ?c1"
    using a by (simp add: get_or_load_A_def find_A_def)
  moreover have "((loading_values_A c)(k \<mapsto> timestamped_val_A (EntrySize_A c) v t))(k := None)
      = loading_values_A c"
    using a by (simp add: fun_upd_idem)
  then have "get_then_A k now ?c1 = (Inl entry_is_too_big, c)"
    using a by (simp add: get_then_A_def timestamped_val_A_def entry_ptr_release_A_def)
  ultimately show "\<exists>c1. get_or_load_A k (Inr v) t c = Inr c1
      \<and> get_then_A k now c1 = (Inl entry_is_too_big, c)"
    by blast
next
  assume a: "loading_values_A c k = Some ts_val \<and> \<not> ready_A ts_val
      \<and> max_size_A c < size_A ts_val"
  then have g: "get_then_A k now c
      = (Inl entry_is_too_big, c\<lparr>loading_values_A := (loading_values_A c)(k := None)\<rparr>)"
    by (simp add: get_then_A_def entry_ptr_release_A_def)
  show "fst (get_then_A k now c) = Inl entry_is_too_big" by (simp add: g)
  show "lru_list_A (snd (get_then_A k now c)) = lru_list_A c" by (simp add: g)
  show "current_size_A (snd (get_then_A k now c)) = current_size_A c" by (simp add: g)
  show "\<forall>k'. set_find_A k' (snd (get_then_A k now c)) = set_find_A k' c"
    using a by (simp add: g set_find_A_def find_A_def)
next
  assume a: "find_B k cb = None"
  show "\<exists>cb1. get_ptr_then_B k v now_ctor now cb = Inr (v, cb1)
         \<and> set_B cb1 = next_B cb # set_B cb
         \<and> heap_B cb1 (next_B cb) = Some \<lparr>key_B = k, val_B = v, loaded_B = now_ctor,
               last_read_B = now, size_B = EntrySize_B cb v\<rparr>
         \<and> current_size_B cb1 = current_size_B cb + EntrySize_B cb v"
    unfolding get_ptr_then_B_miss [OF a]
    by (simp add: touch_B_def timestamped_val_B_def rehash_before_insert_B_def Let_def)
qed

theorem get_rejects_too_big_witness:
  "loading_values_A example_A 2 = None
   \<and> max_size_A example_A < EntrySize_A example_A ''hello''
   \<and> get_then_A 2 8 (projr (get_or_load_A 2 (Inr ''hello'') 7 example_A))
       = (Inl entry_is_too_big, example_A)
   \<and> loading_values_A (projr (get_or_load_A 2 (Inr ''hello'') 7 example_A)) 2
       = Some \<lparr>val_A = ''hello'', loaded_A = 7, last_read_A = 7, ready_A = False, size_A = 5\<rparr>
   \<and> max_size_A (projr (get_or_load_A 2 (Inr ''hello'') 7 example_A)) < 5
   \<and> fst (get_then_A 2 9 (projr (get_or_load_A 2 (Inr ''hello'') 7 example_A)))
       = Inl entry_is_too_big
   \<and> lru_list_A (snd (get_then_A 2 9 (projr (get_or_load_A 2 (Inr ''hello'') 7 example_A))))
       = []
   \<and> current_size_A (snd (get_then_A 2 9 (projr (get_or_load_A 2 (Inr ''hello'') 7 example_A))))
       = 0
   \<and> find_B 2 example_B = None
   \<and> current_size_B (snd (projr (get_ptr_then_B 2 ''hello'' 8 8 example_B)))
       = current_size_B example_B + EntrySize_B example_B ''hello''"
proof -
  let ?c1 = "projr (get_or_load_A 2 (Inr ''hello'') 7 example_A)"
  have a: "loading_values_A example_A 2 = None
      \<and> max_size_A example_A < EntrySize_A example_A ''hello''"
    by (simp add: example_A_def loading_cache_A_def caching_enabled_A_def example_size_def)
  have b: "find_B 2 example_B = None"
    by (simp add: find_B_def example_B_def loading_cache_reload_B_def caching_enabled_B_def
        members_B_def)
  have c: "loading_values_A ?c1 2
       = Some \<lparr>val_A = ''hello'', loaded_A = 7, last_read_A = 7, ready_A = False, size_A = 5\<rparr>"
    "max_size_A ?c1 < 5" "lru_list_A ?c1 = []" "current_size_A ?c1 = 0"
    by (simp_all add: get_or_load_A_def find_A_def timestamped_val_A_def example_A_def
        loading_cache_A_def caching_enabled_A_def example_size_def)
  from a b c
    get_rejects_too_big [where c = example_A and k = 2 and v = "''hello''" and t = 7
      and now = 8 and cb = example_B and now_ctor = 8]
    get_rejects_too_big [where c = ?c1 and k = 2 and now = 9
      and ts_val = "\<lparr>val_A = ''hello'', loaded_A = 7, last_read_A = 7, ready_A = False,
        size_A = 5\<rparr>"]
  show ?thesis by auto
qed

section \<open>The size accounting\<close>

text \<open>
  On the runs from a constructor whose every step has a defined behaviour, the cache
  size is the sum of the cached sizes of the resident entries, and the index and the LRU
  list hold the same entries, each once. Constructing an entry adds its cached size,
  destroying one subtracts it, reassigning one changes the cache size by the new size
  minus the old. The sums and differences are those of \<^verbatim>\<open>size_t\<close>.
\<close>

lemma defined_runs_keep_size_accounting:
  "((loading_cache_reload_B esz m e r t = Inr b0 \<or> loading_cache_B esz m e t = Inr b0)
      \<and> run_B xs b0 = Some b \<longrightarrow>
      current_size_B b = resident_size_B b
      \<and> distinct (set_B b) \<and> distinct (lru_list_B b)
      \<and> set (set_B b) = set (lru_list_B b) \<and> set (set_B b) = dom (heap_B b))
   \<and> (loading_cache_A esz' m' e' r' t' = Inr a0 \<and> run_A ys a0 = Some c \<longrightarrow>
      current_size_A c = resident_size_A c
      \<and> distinct (lru_list_A c)
      \<and> (\<forall>k. k \<in> set (lru_list_A c) \<longleftrightarrow> set_find_A k c \<noteq> None))
   \<and> current_size_B (snd (timestamped_val_B k v now cb)) = current_size_B cb + EntrySize_B cb v
   \<and> (heap_B cb a = Some ts \<longrightarrow>
        current_size_B (destroy_ts_value_B a cb) = current_size_B cb - size_B ts
        \<and> current_size_B (assign_B a v now cb)
            = current_size_B cb - size_B ts + EntrySize_B cb v)
   \<and> (loading_values_A ca k' = Some ts' \<longrightarrow>
        current_size_A (lru_entry_A k' ca) = current_size_A ca + size_A ts'
        \<and> current_size_A (destroy_ts_value_A k' ca) = current_size_A ca - size_A ts'
        \<and> (ready_A ts' \<longrightarrow>
             (\<exists>c1. assign_A k' v' now' ca = Inr c1
                \<and> current_size_A c1 = current_size_A ca - size_A ts' + EntrySize_A ca v')))"
proof (intro conjI impI)
  assume h: "(loading_cache_reload_B esz m e r t = Inr b0 \<or> loading_cache_B esz m e t = Inr b0)
      \<and> run_B xs b0 = Some b"
  then have "inv_B b0"
    using inv_loading_cache_reload_B inv_loading_cache_B by blast
  then have i: "inv_B b" using h inv_run_B by blast
  then show "current_size_B b = resident_size_B b" "distinct (set_B b)"
    "distinct (lru_list_B b)" "set (set_B b) = set (lru_list_B b)"
    "set (set_B b) = dom (heap_B b)"
    by (simp_all add: inv_B_def shape_B_def)
next
  assume h: "loading_cache_A esz' m' e' r' t' = Inr a0 \<and> run_A ys a0 = Some c"
  then have "inv_A a0" using inv_loading_cache_A by blast
  then have i: "inv_A c" using h inv_run_A by blast
  then show "current_size_A c = resident_size_A c" "distinct (lru_list_A c)"
    "\<forall>k. k \<in> set (lru_list_A c) \<longleftrightarrow> set_find_A k c \<noteq> None"
    by (simp_all add: inv_A_def shape_A_def)
next
  show "current_size_B (snd (timestamped_val_B k v now cb))
      = current_size_B cb + EntrySize_B cb v"
    by (simp add: timestamped_val_B_def Let_def)
next
  assume "heap_B cb a = Some ts"
  then show "current_size_B (destroy_ts_value_B a cb) = current_size_B cb - size_B ts"
    "current_size_B (assign_B a v now cb) = current_size_B cb - size_B ts + EntrySize_B cb v"
    by (simp_all add: destroy_ts_value_B_def assign_B_def Let_def)
next
  assume s: "loading_values_A ca k' = Some ts'"
  then show "current_size_A (lru_entry_A k' ca) = current_size_A ca + size_A ts'"
    by (simp add: lru_entry_A_def)
  show "current_size_A (destroy_ts_value_A k' ca) = current_size_A ca - size_A ts'"
    by (simp add: destroy_ts_value_A_anchored [OF s])
  assume "ready_A ts'"
  then show "\<exists>c1. assign_A k' v' now' ca = Inr c1
      \<and> current_size_A c1 = current_size_A ca - size_A ts' + EntrySize_A ca v'"
    using s by (simp add: assign_A_def Let_def)
qed

text \<open>
  Claim C2, at an input where variant B breaks it. The claim has the cache size equal
  to the sum of the sizes of the resident entries after every sequence of public
  operations. In variant B, from the example cache: \<^verbatim>\<open>get_ptr(1)\<close> misses, the load of
  \<^verbatim>\<open>"a"\<close> is installed, the tick at time 60 starts a reload of that entry, \<^verbatim>\<open>erase(1)\<close>
  is called while the loader is in flight. The cache is then empty, with cache size 0.
  When the loader resolves to \<^verbatim>\<open>"xyz"\<close>, the continuation of \<^verbatim>\<open>reload\<close> runs
  \<^verbatim>\<open>operator=\<close> through its reference to the destroyed entry, and \<^verbatim>\<open>operator=\<close> subtracts
  the old size from the cache size and adds the new one: the step has no defined
  behaviour, so the run has no state for which the sum could hold.
\<close>

theorem erased_reload_breaks_size_accounting:
  "run_B erased_reload_run_B example_B \<noteq> None
   \<and> entries_count_B (the (run_B erased_reload_run_B example_B)) = 0
   \<and> lru_list_B (the (run_B erased_reload_run_B example_B)) = []
   \<and> current_size_B (the (run_B erased_reload_run_B example_B)) = 0
   \<and> resident_size_B (the (run_B erased_reload_run_B example_B)) = 0
   \<and> reload_then_B 0 (Inr ''xyz'') 70 (the (run_B erased_reload_run_B example_B))
       = Inl dangling_reference
   \<and> run_B (erased_reload_run_B @ [Reload_then_B 0 (Inr ''xyz'') 70]) example_B = None"
proof -
  obtain c where c: "run_B erased_reload_run_B example_B = Some c"
    using erased_reload_run_B_defined by blast
  have r: "reload_then_B 0 (Inr ''xyz'') 70 c = Inl dangling_reference"
    using erased_reload_run_B_empty(4) by (simp add: c reload_then_B_def)
  show ?thesis
    using erased_reload_run_B_empty r
    by (simp add: c run_B_append entries_count_B_def resident_size_B_def)
qed

section \<open>Reload\<close>

text \<open>
  Claim C3, at an input where variant B breaks it. The claim has every background
  reload keep the key by value and look it up again after the await, so that the
  result of a reload whose entry was evicted meanwhile is dropped without any access
  through a reference taken before the await; the \<^verbatim>\<open>reload\<close> of variant A does that
  (lemma \<open>reload_then_A_evicted\<close> below). The \<^verbatim>\<open>reload\<close> of variant B captures
  \<^verbatim>\<open>&ts_val\<close>. In the example cache of variant B the tick at time 60 calls \<^verbatim>\<open>reload\<close> on
  the entry of key 1, at address 0, and the loader is called with key 1; the entry is
  erased with \<^verbatim>\<open>erase(1)\<close> while the load is in flight; then the continuation, whether
  the load succeeded or failed, goes through the reference to the destroyed object.
\<close>

theorem reload_after_erase_dangles:
  "fst (the (on_timer_with_reload_B 60 60 example_B1)) = [0]
   \<and> reload_key_B 0 (snd (the (on_timer_with_reload_B 60 60 example_B1))) = Some 1
   \<and> fst (erase_B 1 (snd (the (on_timer_with_reload_B 60 60 example_B1)))) = 1
   \<and> find_B 1 (snd (erase_B 1 (snd (the (on_timer_with_reload_B 60 60 example_B1))))) = None
   \<and> reload_then_B 0 (Inr ''b'') 70
        (snd (erase_B 1 (snd (the (on_timer_with_reload_B 60 60 example_B1)))))
       = Inl dangling_reference
   \<and> reload_then_B 0 (Inl (loader_exception ''down'')) 70
        (snd (erase_B 1 (snd (the (on_timer_with_reload_B 60 60 example_B1)))))
       = Inl dangling_reference"
  unfolding example_B1_on_timer_with_reload
  by (simp add: reload_key_B_def erase_B_def find_B_def erase_it_B_def
      destroy_ts_value_B_def reload_then_B_def example_B1_eq)

lemma reload_then_A_evicted:
  "set_find_A key c = None \<Longrightarrow> reload_then_A key f now c = Inr c"
  by (simp add: reload_then_A_def)

text \<open>
  A failed load is swallowed by the continuation of \<^verbatim>\<open>reload\<close>, which leaves the cache
  as it was: in variant A always, in variant B when the entry that the continuation
  refers to still exists.
\<close>

lemma reload_failure_swallowed:
  "reload_then_A key (Inl e) now c = Inr c
   \<and> (heap_B cb a \<noteq> None \<longrightarrow> reload_then_B a (Inl e) now cb = Inr cb)"
  by (auto simp: reload_then_A_def reload_then_B_def split: option.splits)

text \<open>
  Claim C4, at an input where variant B breaks it. The claim has every background
  reload whose loader fails resolve without an exception and leave the entry as it was.
  In the example cache of variant B the tick at time 60 calls \<^verbatim>\<open>reload\<close> on the entry of
  key 1, at address 0. If the loader fails while the entry is there, the continuation
  returns and the cache is unchanged. If \<^verbatim>\<open>erase(1)\<close> is called while the loader is in
  flight, the \<^verbatim>\<open>catch\<close> branch of the continuation reads \<^verbatim>\<open>ts_val.key()\<close> for its log line
  through the reference to the destroyed object: the reload does not resolve, it has
  no defined behaviour.
\<close>

theorem failed_reload_after_erase_dangles:
  "on_timer_with_reload_B 60 60 example_B1 = Some ([0], example_B1)
   \<and> reload_key_B 0 example_B1 = Some 1
   \<and> reload_then_B 0 (Inl (loader_exception ''down'')) 70 example_B1 = Inr example_B1
   \<and> fst (erase_B 1 example_B1) = 1
   \<and> heap_B (snd (erase_B 1 example_B1)) 0 = None
   \<and> reload_then_B 0 (Inl (loader_exception ''down'')) 70 (snd (erase_B 1 example_B1))
       = Inl dangling_reference"
  using example_B1_on_timer_with_reload
  by (simp add: reload_key_B_def erase_B_def find_B_def erase_it_B_def
      destroy_ts_value_B_def reload_then_B_def example_B1_eq)

section \<open>The timer\<close>

text \<open>
  Claim C6. In a cache reached by any run from a constructor, \<^verbatim>\<open>drop_expired\<close> at the
  clock reading \<open>now\<close> evicts an entry of the LRU list exactly when
  \<open>expiry < now - last_read\<close> or, in reload mode (\<^verbatim>\<open>ReloadEnabled\<close> in variant B, always
  in variant A), \<open>expiry < now - loaded\<close>: such an entry leaves the LRU list and the
  index and is destroyed; every other entry stays, unchanged, and the entries that stay
  keep their order.
\<close>

theorem drop_expired_evicts_exactly:
  "((loading_cache_reload_B esz m e r t = Inr b0 \<or> loading_cache_B esz m e t = Inr b0)
      \<and> run_B xs b0 = Some b \<longrightarrow>
      lru_list_B (drop_expired_B now b)
        = filter (\<lambda>a. heap_B (drop_expired_B now b) a \<noteq> None) (lru_list_B b)
      \<and> (\<forall>a \<in> set (lru_list_B b). \<exists>v. heap_B b a = Some v
          \<and> (if expiry_B b < now - last_read_B v
                \<or> (ReloadEnabled_B b \<and> expiry_B b < now - loaded_B v)
             then a \<notin> set (lru_list_B (drop_expired_B now b))
                \<and> a \<notin> set (set_B (drop_expired_B now b))
                \<and> heap_B (drop_expired_B now b) a = None
             else a \<in> set (lru_list_B (drop_expired_B now b))
                \<and> a \<in> set (set_B (drop_expired_B now b))
                \<and> heap_B (drop_expired_B now b) a = Some v)))
   \<and> (loading_cache_A esz' m' e' r' t' = Inr a0 \<and> run_A ys a0 = Some c \<longrightarrow>
      lru_list_A (drop_expired_A now c)
        = filter (\<lambda>k. loading_values_A (drop_expired_A now c) k \<noteq> None) (lru_list_A c)
      \<and> (\<forall>k \<in> set (lru_list_A c). \<exists>v. loading_values_A c k = Some v
          \<and> (if expiry_A c < now - last_read_A v \<or> expiry_A c < now - loaded_A v
             then k \<notin> set (lru_list_A (drop_expired_A now c))
                \<and> set_find_A k (drop_expired_A now c) = None
                \<and> loading_values_A (drop_expired_A now c) k = None
             else k \<in> set (lru_list_A (drop_expired_A now c))
                \<and> loading_values_A (drop_expired_A now c) k = Some v)))"
proof (intro conjI impI ballI)
  assume h: "(loading_cache_reload_B esz m e r t = Inr b0 \<or> loading_cache_B esz m e t = Inr b0)
      \<and> run_B xs b0 = Some b"
  then have "inv_B b0"
    using inv_loading_cache_reload_B inv_loading_cache_B by blast
  then have i: "inv_B b" using h inv_run_B by blast
  show "lru_list_B (drop_expired_B now b)
        = filter (\<lambda>a. heap_B (drop_expired_B now b) a \<noteq> None) (lru_list_B b)"
    using i by (rule lru_drop_expired_B)
  fix a assume "a \<in> set (lru_list_B b)"
  from drop_expired_B_entry [OF i this, of now]
  show "\<exists>v. heap_B b a = Some v
          \<and> (if expiry_B b < now - last_read_B v
                \<or> (ReloadEnabled_B b \<and> expiry_B b < now - loaded_B v)
             then a \<notin> set (lru_list_B (drop_expired_B now b))
                \<and> a \<notin> set (set_B (drop_expired_B now b))
                \<and> heap_B (drop_expired_B now b) a = None
             else a \<in> set (lru_list_B (drop_expired_B now b))
                \<and> a \<in> set (set_B (drop_expired_B now b))
                \<and> heap_B (drop_expired_B now b) a = Some v)"
    by (simp add: expired_B_def Let_def)
next
  assume h: "loading_cache_A esz' m' e' r' t' = Inr a0 \<and> run_A ys a0 = Some c"
  then have "inv_A a0" using inv_loading_cache_A by blast
  then have i: "inv_A c" using h inv_run_A by blast
  show "lru_list_A (drop_expired_A now c)
        = filter (\<lambda>k. loading_values_A (drop_expired_A now c) k \<noteq> None) (lru_list_A c)"
    using i by (rule lru_drop_expired_A)
  fix k assume "k \<in> set (lru_list_A c)"
  from drop_expired_A_entry [OF i this, of now]
  show "\<exists>v. loading_values_A c k = Some v
          \<and> (if expiry_A c < now - last_read_A v \<or> expiry_A c < now - loaded_A v
             then k \<notin> set (lru_list_A (drop_expired_A now c))
                \<and> set_find_A k (drop_expired_A now c) = None
                \<and> loading_values_A (drop_expired_A now c) k = None
             else k \<in> set (lru_list_A (drop_expired_A now c))
                \<and> loading_values_A (drop_expired_A now c) k = Some v)"
    by (simp add: expired_A_def Let_def)
qed

theorem drop_expired_evicts_exactly_witness:
  "loading_cache_reload_B example_size 4 100 50 0 = Inr example_B
   \<and> run_B [Get_ptr_then_B 1 ''a'' 6 6] example_B = Some example_B1
   \<and> 0 \<in> set (lru_list_B example_B1)
   \<and> 0 \<notin> set (lru_list_B (drop_expired_B 200 example_B1))
   \<and> heap_B (drop_expired_B 200 example_B1) 0 = None
   \<and> 0 \<in> set (lru_list_B (drop_expired_B 60 example_B1))
   \<and> loading_cache_A example_size 4 100 50 0 = Inr example_A
   \<and> run_A [Get_or_load_A 1 (Inr ''a'') 6, Get_then_A 1 6] example_A = Some example_A1
   \<and> 1 \<in> set (lru_list_A example_A1)
   \<and> 1 \<notin> set (lru_list_A (drop_expired_A 200 example_A1))
   \<and> 1 \<in> set (lru_list_A (drop_expired_A 60 example_A1))"
proof -
  note h = example_B_constructed example_B1_run example_A_constructed example_A1_run
  note t1 = drop_expired_evicts_exactly [where now = 200 and b = example_B1
      and c = example_A1 and esz = example_size and m = 4 and e = 100 and r = 50 and t = 0
      and ?b0.0 = example_B and xs = "[Get_ptr_then_B 1 ''a'' 6 6]"
      and esz' = example_size and m' = 4 and e' = 100 and r' = 50 and t' = 0
      and ?a0.0 = example_A and ys = "[Get_or_load_A 1 (Inr ''a'') 6, Get_then_A 1 6]"]
  note t2 = drop_expired_evicts_exactly [where now = 60 and b = example_B1
      and c = example_A1 and esz = example_size and m = 4 and e = 100 and r = 50 and t = 0
      and ?b0.0 = example_B and xs = "[Get_ptr_then_B 1 ''a'' 6 6]"
      and esz' = example_size and m' = 4 and e' = 100 and r' = 50 and t' = 0
      and ?a0.0 = example_A and ys = "[Get_or_load_A 1 (Inr ''a'') 6, Get_then_A 1 6]"]
  show ?thesis
    using t1 t2
    by (simp add: h example_B1_fields example_A1_fields
        del: run_B.simps run_A.simps One_nat_def)
qed


text \<open>
  Claim C7, as stated, against the code. The claim has the refresh step call \<^verbatim>\<open>reload\<close>
  exactly on the entries with \<open>loaded + refresh < timer_start\<close>, the time point taken
  when the tick's work started, not the time at which each entry is examined.

  The lambda of variant A reads the clock when it examines the entry. In the example
  cache of variant A the entry of key 1 was loaded at 6 and \<open>refresh\<close> is 50; the tick
  starts at 56, where \<open>6 + 50 < 56\<close> is false, and the clock reads 57 when the entry is
  examined: \<^verbatim>\<open>reload\<close> is called on it.

  In both variants the sum \<^verbatim>\<open>loaded() + _refresh\<close> is taken in the representation. With
  \<open>refresh\<close> the greatest value of \<^verbatim>\<open>std::chrono::milliseconds\<close>, the entry loaded at 6 and
  the tick (and every reading of the clock) at 60, \<open>6 + refresh < 60\<close> is false, and
  \<^verbatim>\<open>reload\<close> is called on the entry.
\<close>

theorem on_timer_reads_clock_per_entry_counterexample:
  "loading_values_A example_A1 1
     = Some \<lparr>val_A = ''a'', loaded_A = 6, last_read_A = 6, ready_A = True, size_A = 1\<rparr>
   \<and> refresh_A example_A1 = 50
   \<and> \<not> ((6::int) + 50 < 56)
   \<and> on_timer_A 56 (\<lambda>k. 57) example_A1 = Some ([1], example_A1)
   \<and> heap_B example_B2 0
     = Some \<lparr>key_B = 1, val_B = ''a'', loaded_B = 6, last_read_B = 6, size_B = 1\<rparr>
   \<and> refresh_B example_B2 = Some 9223372036854775807
   \<and> \<not> ((6::int) + 9223372036854775807 < 60)
   \<and> on_timer_with_reload_B 60 60 example_B2 = Some ([0], example_B2)
   \<and> loading_values_A example_A2 1
     = Some \<lparr>val_A = ''a'', loaded_A = 6, last_read_A = 6, ready_A = True, size_A = 1\<rparr>
   \<and> refresh_A example_A2 = 9223372036854775807
   \<and> on_timer_A 60 (\<lambda>k. 60) example_A2 = Some ([1], example_A2)"
  using example_A1_on_timer example_B2_on_timer_with_reload example_A2_on_timer
  by (simp add: example_A1_fields example_B2_fields example_A2_fields del: One_nat_def)

text \<open>
  Claim C7, amended. In variant B (reload mode), \<^verbatim>\<open>on_timer_with_reload\<close> calls
  \<^verbatim>\<open>reload\<close> exactly on the entries left by the sweeps for which \<open>loaded + refresh\<close>,
  taken in the signed 64-bit representation of the clock, is less than
  \<open>timer_start_tp\<close>, the time point taken at the start of the tick. In variant A,
  \<^verbatim>\<open>on_timer\<close> calls \<^verbatim>\<open>reload\<close> exactly on the entries left by the sweeps for which that
  sum is less than the clock as read when the entry is examined. Wherever the exact sum
  fits the representation, the sum is the exact one.
\<close>

theorem refresh_selects_by_load_age:
  "(ReloadEnabled_B b \<and> refresh_B b = Some refresh
      \<and> on_timer_with_reload_B timer_start_tp now b = Some (rs, b1) \<longrightarrow>
      shrink_B (drop_expired_B now b) = Some b1
      \<and> set rs \<subseteq> set (set_B b1)
      \<and> (\<forall>a \<in> set (set_B b1). \<forall>v. heap_B b1 a = Some v \<longrightarrow>
            (a \<in> set rs \<longleftrightarrow> chrono_plus (loaded_B v) refresh < timer_start_tp)
            \<and> (- (2 ^ 63) \<le> loaded_B v + refresh \<and> loaded_B v + refresh < 2 ^ 63 \<longrightarrow>
                 (a \<in> set rs \<longleftrightarrow> loaded_B v + refresh < timer_start_tp))))
   \<and> (on_timer_A now' clock_at c = Some (ks, c1) \<longrightarrow>
      shrink_A (drop_expired_A now' c) = Some c1
      \<and> set ks \<subseteq> set (lru_list_A c1)
      \<and> (\<forall>k \<in> set (lru_list_A c1). \<forall>v. loading_values_A c1 k = Some v \<longrightarrow>
            (k \<in> set ks \<longleftrightarrow> chrono_plus (loaded_A v) (refresh_A c) < clock_at k)
            \<and> (- (2 ^ 63) \<le> loaded_A v + refresh_A c \<and> loaded_A v + refresh_A c < 2 ^ 63 \<longrightarrow>
                 (k \<in> set ks \<longleftrightarrow> loaded_A v + refresh_A c < clock_at k))))"
proof (intro conjI impI)
  assume h: "ReloadEnabled_B b \<and> refresh_B b = Some refresh
      \<and> on_timer_with_reload_B timer_start_tp now b = Some (rs, b1)"
  then obtain b2 where s: "shrink_B (drop_expired_B now b) = Some b2"
    and o: "on_timer_B timer_start_tp now b = Some b1"
    by (auto simp: on_timer_with_reload_B_def on_timer_B_def split: option.splits)
  have re: "ReloadEnabled_B b2" and rf: "refresh_B b2 = Some refresh"
    using config_shrink_B [OF s] h
    by (simp_all add: drop_expired_B_def config_remove_and_dispose_if_B)
  have b1: "b1 = b2"
    using o s re by (simp add: on_timer_B_def periodic_rehash_B_def)
  have rs: "rs = filter (needs_reload_B b1 timer_start_tp) (set_B b1)"
    using h o by (simp add: on_timer_with_reload_B_def)
  show "shrink_B (drop_expired_B now b) = Some b1" using s b1 by simp
  show "set rs \<subseteq> set (set_B b1)" by (auto simp: rs)
  show "\<forall>a \<in> set (set_B b1). \<forall>v. heap_B b1 a = Some v \<longrightarrow>
            (a \<in> set rs \<longleftrightarrow> chrono_plus (loaded_B v) refresh < timer_start_tp)
            \<and> (- (2 ^ 63) \<le> loaded_B v + refresh \<and> loaded_B v + refresh < 2 ^ 63 \<longrightarrow>
                 (a \<in> set rs \<longleftrightarrow> loaded_B v + refresh < timer_start_tp))"
    using rf b1 by (auto simp: rs needs_reload_B_def chrono_plus_exact)
next
  assume h: "on_timer_A now' clock_at c = Some (ks, c1)"
  then have s: "shrink_A (drop_expired_A now' c) = Some c1"
    and ks: "ks = filter (needs_reload_A c1 clock_at) (lru_list_A c1)"
    by (auto simp: on_timer_A_def periodic_rehash_A_def split: option.splits)
  have rf: "refresh_A c1 = refresh_A c"
    using config_shrink_A [OF s]
    by (simp add: drop_expired_A_def config_remove_and_dispose_if_A)
  show "shrink_A (drop_expired_A now' c) = Some c1" by (rule s)
  show "set ks \<subseteq> set (lru_list_A c1)" by (auto simp: ks)
  show "\<forall>k \<in> set (lru_list_A c1). \<forall>v. loading_values_A c1 k = Some v \<longrightarrow>
            (k \<in> set ks \<longleftrightarrow> chrono_plus (loaded_A v) (refresh_A c) < clock_at k)
            \<and> (- (2 ^ 63) \<le> loaded_A v + refresh_A c \<and> loaded_A v + refresh_A c < 2 ^ 63 \<longrightarrow>
                 (k \<in> set ks \<longleftrightarrow> loaded_A v + refresh_A c < clock_at k))"
    using rf by (auto simp: ks needs_reload_A_def chrono_plus_exact)
qed

theorem refresh_selects_by_load_age_witness:
  "ReloadEnabled_B example_B1 \<and> refresh_B example_B1 = Some 50
   \<and> on_timer_with_reload_B 60 60 example_B1 = Some ([0], example_B1)
   \<and> shrink_B (drop_expired_B 60 example_B1) = Some example_B1
   \<and> set [0] \<subseteq> set (set_B example_B1)
   \<and> heap_B example_B1 0
       = Some \<lparr>key_B = 1, val_B = ''a'', loaded_B = 6, last_read_B = 6, size_B = 1\<rparr>
   \<and> - (2 ^ 63) \<le> (6::int) + 50 \<and> (6::int) + 50 < 2 ^ 63
   \<and> chrono_plus 6 50 < 60
   \<and> on_timer_A 56 (\<lambda>k. 57) example_A1 = Some ([1], example_A1)
   \<and> shrink_A (drop_expired_A 56 example_A1) = Some example_A1
   \<and> set [1] \<subseteq> set (lru_list_A example_A1)
   \<and> chrono_plus 6 50 < 57
   \<and> ReloadEnabled_B example_B2 \<and> refresh_B example_B2 = Some 9223372036854775807
   \<and> on_timer_with_reload_B 60 60 example_B2 = Some ([0], example_B2)
   \<and> chrono_plus 6 9223372036854775807 < 60"
  using refresh_selects_by_load_age [where b = example_B1 and refresh = 50
      and timer_start_tp = 60 and now = 60 and rs = "[0]" and ?b1.0 = example_B1
      and now' = 56 and clock_at = "\<lambda>k. 57" and c = example_A1 and ks = "[1]"
      and ?c1.0 = example_A1]
    refresh_selects_by_load_age [where b = example_B2 and refresh = 9223372036854775807
      and timer_start_tp = 60 and now = 60 and rs = "[0]" and ?b1.0 = example_B2
      and now' = 60 and clock_at = "\<lambda>k. 60" and c = example_A2 and ks = "[1]"
      and ?c1.0 = example_A2]
    example_B1_on_timer_with_reload example_A1_on_timer
    example_B2_on_timer_with_reload example_A2_on_timer
  by (simp add: example_B1_fields example_A1_fields example_B2_fields example_A2_fields
      del: One_nat_def)

section \<open>Reassignment\<close>

text \<open>
  Claim C8. Reassigning the value of an entry (an object that is alive in variant B,
  an anchored slot in variant A) stores the new value, sets the load time to the
  clock, makes the cached size the size of the new value and changes the cache size by
  the new size minus the old; the read time, the key, the LRU list, the set and every
  other entry stay as they were.
\<close>

theorem reassign_frame:
  "(heap_B cb a = Some e \<longrightarrow>
      heap_B (assign_B a new_val now cb) a
        = Some \<lparr>key_B = key_B e, val_B = new_val, loaded_B = now,
                last_read_B = last_read_B e, size_B = EntrySize_B cb new_val\<rparr>
      \<and> current_size_B (assign_B a new_val now cb)
        = current_size_B cb - size_B e + EntrySize_B cb new_val
      \<and> lru_list_B (assign_B a new_val now cb) = lru_list_B cb
      \<and> set_B (assign_B a new_val now cb) = set_B cb
      \<and> (\<forall>b. b \<noteq> a \<longrightarrow> heap_B (assign_B a new_val now cb) b = heap_B cb b))
   \<and> (loading_values_A c k = Some t \<and> ready_A t \<longrightarrow>
      (\<exists>c1. assign_A k new_val now c = Inr c1
         \<and> loading_values_A c1 k
            = Some \<lparr>val_A = new_val, loaded_A = now, last_read_A = last_read_A t,
                    ready_A = True, size_A = EntrySize_A c new_val\<rparr>
         \<and> current_size_A c1 = current_size_A c - size_A t + EntrySize_A c new_val
         \<and> lru_list_A c1 = lru_list_A c
         \<and> (\<forall>k'. k' \<noteq> k \<longrightarrow> loading_values_A c1 k' = loading_values_A c k')))"
  by (cases e; cases t) (auto simp: assign_B_def assign_A_def Let_def)

theorem reassign_frame_witness:
  "heap_B example_B1 0 = Some \<lparr>key_B = 1, val_B = ''a'', loaded_B = 6, last_read_B = 6,
        size_B = 1\<rparr>
   \<and> heap_B (assign_B 0 ''xyz'' 70 example_B1) 0
        = Some \<lparr>key_B = 1, val_B = ''xyz'', loaded_B = 70, last_read_B = 6, size_B = 3\<rparr>
   \<and> current_size_B (assign_B 0 ''xyz'' 70 example_B1) = 3
   \<and> lru_list_B (assign_B 0 ''xyz'' 70 example_B1) = [0]
   \<and> loading_values_A example_A1 1 = Some \<lparr>val_A = ''a'', loaded_A = 6,
        last_read_A = 6, ready_A = True, size_A = 1\<rparr>
   \<and> current_size_A (projr (assign_A 1 ''xyz'' 70 example_A1)) = 3
   \<and> lru_list_A (projr (assign_A 1 ''xyz'' 70 example_A1)) = [1]"
proof -
  have b: "heap_B example_B1 0 = Some \<lparr>key_B = 1, val_B = ''a'', loaded_B = 6,
      last_read_B = 6, size_B = 1\<rparr>"
    by (simp add: example_B1_eq)
  have a: "loading_values_A example_A1 1 = Some \<lparr>val_A = ''a'', loaded_A = 6,
        last_read_A = 6, ready_A = True, size_A = 1\<rparr>"
    by (simp add: example_A1_eq)
  have e: "EntrySize_B example_B1 ''xyz'' = 3" "current_size_B example_B1 = 1"
    "lru_list_B example_B1 = [0]" "EntrySize_A example_A1 ''xyz'' = 3"
    "current_size_A example_A1 = 1" "lru_list_A example_A1 = [1]"
    by (simp_all add: example_B1_eq example_A1_eq example_B_def example_A_def
        loading_cache_reload_B_def loading_cache_A_def caching_enabled_B_def
        caching_enabled_A_def members_B_def example_size_def)
  from reassign_frame [where cb = example_B1 and a = 0 and new_val = "''xyz''" and now = 70
      and c = example_A1 and k = 1
      and e = "\<lparr>key_B = 1, val_B = ''a'', loaded_B = 6, last_read_B = 6, size_B = 1\<rparr>"
      and t = "\<lparr>val_A = ''a'', loaded_A = 6, last_read_A = 6, ready_A = True,
        size_A = 1\<rparr>"] a b e
  show ?thesis by auto
qed

section \<open>Caching disabled\<close>

lemma run_gets_disabled_B:
  "expiry_B c = 0 \<Longrightarrow> run_B (map (\<lambda>(k, now). Get_B k now) kts) c = Some c"
  by (induction kts) (auto simp: get_B_def caching_enabled_B_def)

lemma run_gets_disabled_A:
  "expiry_A c = 0 \<Longrightarrow> run_A (map Get_A ks) c = Some c"
  by (induction ks) (auto simp: get_A_def caching_enabled_A_def)

text \<open>
  Claim C9. With \<open>expiry = 0\<close>, \<^verbatim>\<open>get(k)\<close> hands the loader's own future for \<open>k\<close> to
  the caller and leaves the cache as it is, in both variants; so from the constructed
  cache, which has no entry, any sequence of \<^verbatim>\<open>get\<close> calls ends in that same cache:
  \<^verbatim>\<open>entries_count()\<close> is 0 throughout.
\<close>

theorem disabled_cache_passes_through:
  "(expiry_B c = 0 \<longrightarrow> get_B k now c = Inr (load_future k, c))
   \<and> (expiry_A ca = 0 \<longrightarrow> get_A k ca = (load_future k, ca))
   \<and> (loading_cache_reload_B esz m 0 r t = Inr c0 \<longrightarrow>
        expiry_B c0 = 0 \<and> entries_count_B c0 = 0 \<and> size_of_B c0 = 0
        \<and> run_B (map (\<lambda>(k, now). Get_B k now) kts) c0 = Some c0)
   \<and> (loading_cache_A esz m 0 r t = Inr a0 \<longrightarrow>
        expiry_A a0 = 0 \<and> lru_list_A a0 = [] \<and> (\<forall>k'. loading_values_A a0 k' = None)
        \<and> run_A (map Get_A ks) a0 = Some a0)"
proof (intro conjI impI)
  assume "loading_cache_reload_B esz m 0 r t = Inr c0"
  then have c0: "c0 = members_B True esz m 0 (Some r)"
    by (simp add: loading_cache_reload_B_def caching_enabled_B_def members_B_def)
  show "expiry_B c0 = 0" "entries_count_B c0 = 0" "size_of_B c0 = 0"
    by (simp_all add: c0 members_B_def entries_count_B_def size_of_B_def)
  then show "run_B (map (\<lambda>(k, now). Get_B k now) kts) c0 = Some c0"
    by (simp add: run_gets_disabled_B)
next
  assume "loading_cache_A esz m 0 r t = Inr a0"
  then have a0: "a0 = \<lparr>loading_values_A = Map.empty, lru_list_A = [], current_size_A = 0,
               max_size_A = m, expiry_A = 0, refresh_A = r,
               timer_period_A = None, timer_A = None, EntrySize_A = esz\<rparr>"
    by (simp add: loading_cache_A_def caching_enabled_A_def)
  show "expiry_A a0 = 0" "lru_list_A a0 = []" "\<forall>k'. loading_values_A a0 k' = None"
    by (simp_all add: a0)
  then show "run_A (map Get_A ks) a0 = Some a0"
    by (simp add: run_gets_disabled_A)
qed (simp_all add: get_B_def get_A_def caching_enabled_B_def caching_enabled_A_def)

theorem disabled_cache_passes_through_witness:
  "expiry_B (members_B True example_size 4 0 (Some 50) :: (nat, string) loading_cache_B) = 0
   \<and> get_B 7 3 (members_B True example_size 4 0 (Some 50) :: (nat, string) loading_cache_B)
       = Inr (load_future 7, members_B True example_size 4 0 (Some 50))
   \<and> (loading_cache_reload_B example_size 4 0 50 0 :: exn + (nat, string) loading_cache_B)
       = Inr (members_B True example_size 4 0 (Some 50))
   \<and> run_B [Get_B 7 3, Get_B 7 4, Get_B 8 5]
        (members_B True example_size 4 0 (Some 50) :: (nat, string) loading_cache_B)
       = Some (members_B True example_size 4 0 (Some 50))
   \<and> entries_count_B (members_B True example_size 4 0 (Some 50) :: (nat, string) loading_cache_B)
       = 0
   \<and> \<not> isl (loading_cache_A example_size 4 0 50 0 :: exn + (nat, string) loading_cache_A)
   \<and> expiry_A (projr (loading_cache_A example_size 4 0 50 0
        :: exn + (nat, string) loading_cache_A)) = 0
   \<and> get_A 7 (projr (loading_cache_A example_size 4 0 50 0
        :: exn + (nat, string) loading_cache_A))
       = (load_future 7, projr (loading_cache_A example_size 4 0 50 0))
   \<and> run_A [Get_A 7, Get_A 7, Get_A 8]
        (projr (loading_cache_A example_size 4 0 50 0 :: exn + (nat, string) loading_cache_A))
       = Some (projr (loading_cache_A example_size 4 0 50 0))"
proof -
  let ?c = "members_B True example_size 4 0 (Some 50) :: (nat, string) loading_cache_B"
  let ?a = "projr (loading_cache_A example_size 4 0 50 0 :: exn + (nat, string) loading_cache_A)"
  have e: "expiry_B ?c = 0" by (simp add: members_B_def)
  have b: "(loading_cache_reload_B example_size 4 0 50 0 :: exn + (nat, string) loading_cache_B)
       = Inr ?c"
    by (simp add: loading_cache_reload_B_def caching_enabled_B_def members_B_def)
  have a: "(loading_cache_A example_size 4 0 50 0 :: exn + (nat, string) loading_cache_A)
       = Inr ?a"
    by (simp add: loading_cache_A_def caching_enabled_A_def)
  have i: "\<not> isl (loading_cache_A example_size 4 0 50 0 :: exn + (nat, string) loading_cache_A)"
    by (simp add: loading_cache_A_def caching_enabled_A_def)
  have ea: "expiry_A ?a = 0"
    by (simp add: loading_cache_A_def caching_enabled_A_def)
  from disabled_cache_passes_through [of ?c 7 3 ?a example_size 4 50 0 ?c
      "[(7, 3), (7, 4), (8, 5)]" ?a "[7, 7, 8]"] e b a i ea
  show ?thesis by (simp del: run_B.simps run_A.simps)
qed

text \<open>
  Claim C10. In variant B, \<^verbatim>\<open>get_ptr(k, load)\<close> with \<open>expiry = 0\<close> fails its assertion,
  where \<^verbatim>\<open>get(k)\<close> hands out the loader's future; with a non-zero expiry the assertion
  holds and \<^verbatim>\<open>get(k)\<close> is \<^verbatim>\<open>get_ptr(k)\<close>.
\<close>

theorem get_ptr_asserts_caching_enabled:
  "(expiry_B c = 0 \<longrightarrow>
      get_ptr_B k now c = Inl assertion_failed \<and> get_B k now c = Inr (load_future k, c))
   \<and> (expiry_B c \<noteq> 0 \<longrightarrow>
      get_ptr_B k now c \<noteq> Inl assertion_failed \<and> get_B k now c = get_ptr_B k now c)"
  by (auto simp: get_ptr_B_def get_B_def caching_enabled_B_def pointer_B_def
      split: option.splits)

theorem get_ptr_asserts_caching_enabled_witness:
  "expiry_B (members_B True example_size 4 0 (Some 50) :: (nat, string) loading_cache_B) = 0
   \<and> get_ptr_B 7 3 (members_B True example_size 4 0 (Some 50) :: (nat, string) loading_cache_B)
       = Inl assertion_failed
   \<and> get_B 7 3 (members_B True example_size 4 0 (Some 50) :: (nat, string) loading_cache_B)
       = Inr (load_future 7, members_B True example_size 4 0 (Some 50))
   \<and> expiry_B example_B \<noteq> 0
   \<and> get_ptr_B 7 3 example_B \<noteq> Inl assertion_failed"
proof -
  let ?c = "members_B True example_size 4 0 (Some 50) :: (nat, string) loading_cache_B"
  have e: "expiry_B ?c = 0" by (simp add: members_B_def)
  have d: "expiry_B example_B \<noteq> 0"
    by (simp add: example_B_def loading_cache_reload_B_def caching_enabled_B_def members_B_def)
  from e d get_ptr_asserts_caching_enabled [of ?c 7 3]
    get_ptr_asserts_caching_enabled [of example_B 7 3]
  show ?thesis by simp
qed

end
